theory Spec2Isabelle
  imports Main "HOL-Library.Sublist"
begin

section \<open>The job store (web/jobs.py)\<close>

text \<open>
  A Python \<open>str\<close> is a HOL \<open>string\<close>; a \<open>datetime\<close> is a point on a discrete time
  line. \<open>datetime.utcnow()\<close> is a read of the system clock: the store operations
  take the value that read returned as their argument \<open>now\<close>.
\<close>

type_synonym datetime = nat

datatype JobStatus = PENDING | RUNNING | DONE | FAILED

text \<open>The dataclass \<open>Job\<close>. The field \<open>id\<close> is called \<open>job_id\<close> here.\<close>

record Job =
  job_id :: string
  mode :: string
  status :: JobStatus
  created_at :: datetime
  updated_at :: datetime
  log_lines :: "string list"
  error :: "string option"
  result_summary :: "string option"

text \<open>
  The module globals \<open>_jobs\<close> (a dict from id to job) and \<open>_job_order\<close> (the ids in
  the order of creation).
\<close>

record store =
  jobs :: "string \<rightharpoonup> Job"
  job_order :: "string list"

definition empty_store :: store where
  "empty_store = \<lparr>jobs = Map.empty, job_order = []\<rparr>"

text \<open>
  \<open>create_job\<close>: \<open>uuid\<close> is the string \<open>str(uuid.uuid4())\<close> produced, \<open>now\<close> the clock
  read. The new job is returned together with the updated store.
\<close>

definition create_job :: "string \<Rightarrow> datetime \<Rightarrow> string \<Rightarrow> store \<Rightarrow> Job \<times> store" where
  "create_job uuid now md s =
     (let job = \<lparr>job_id = uuid, mode = md, status = PENDING, created_at = now,
                 updated_at = now, log_lines = [], error = None, result_summary = None\<rparr>
      in (job, s\<lparr>jobs := (jobs s)(uuid \<mapsto> job), job_order := job_order s @ [uuid]\<rparr>))"

definition get_job :: "string \<Rightarrow> store \<Rightarrow> Job option" where
  "get_job jid s = jobs s jid"

text \<open>
  Python's slice \<open>xs[i:]\<close>: a negative start counts from the end and is clipped
  at the front of the list.
\<close>

definition slice_from :: "'a list \<Rightarrow> int \<Rightarrow> 'a list" where
  "slice_from xs i =
     (if i < 0 then drop (nat (int (length xs) + i)) xs else drop (nat i) xs)"

text \<open>
  \<open>list_jobs(limit: int = 50)\<close>: the argument is \<open>None\<close> when the caller leaves the
  limit out. \<open>if limit\<close> is false exactly for 0. The comprehension skips ids that
  are not in \<open>_jobs\<close>.
\<close>

definition list_jobs :: "int option \<Rightarrow> store \<Rightarrow> Job list" where
  "list_jobs limit_arg s =
     (let limit = (case limit_arg of None \<Rightarrow> 50 | Some n \<Rightarrow> n);
          order = (if limit \<noteq> 0 then slice_from (job_order s) (- limit) else job_order s);
          order = rev order
      in List.map_filter (jobs s) order)"

text \<open>
  \<open>update_job_status\<close> and \<open>append_job_log\<close>. A \<open>Job\<close> object is always true in
  \<open>if job:\<close>, so the test is the test that the id is known.
\<close>

definition update_job_status ::
  "datetime \<Rightarrow> string \<Rightarrow> JobStatus \<Rightarrow> string option \<Rightarrow> string option \<Rightarrow> store \<Rightarrow> store" where
  "update_job_status now jid st err summ s =
     (case jobs s jid of
        None \<Rightarrow> s
      | Some job \<Rightarrow>
          (let job = job\<lparr>status := st\<rparr>;
               job = job\<lparr>updated_at := now\<rparr>;
               job = (case err of None \<Rightarrow> job | Some e \<Rightarrow> job\<lparr>error := Some e\<rparr>);
               job = (case summ of None \<Rightarrow> job | Some r \<Rightarrow> job\<lparr>result_summary := Some r\<rparr>)
           in s\<lparr>jobs := (jobs s)(jid \<mapsto> job)\<rparr>))"

definition append_job_log :: "datetime \<Rightarrow> string \<Rightarrow> string \<Rightarrow> store \<Rightarrow> store" where
  "append_job_log now jid line s =
     (case jobs s jid of
        None \<Rightarrow> s
      | Some job \<Rightarrow>
          (let job = job\<lparr>log_lines := log_lines job @ [line]\<rparr>;
               job = job\<lparr>updated_at := now\<rparr>
           in s\<lparr>jobs := (jobs s)(jid \<mapsto> job)\<rparr>))"

text \<open>
  \<open>Job.to_dict\<close>: the dict it returns, as a record. \<open>isoformat\<close> is the rendering
  of the datetime library, a parameter here.
\<close>

record JobDict =
  d_id :: string
  d_mode :: string
  d_status :: string
  d_created_at :: string
  d_updated_at :: string
  d_log_lines_count :: nat
  d_error :: "string option"
  d_result_summary :: "string option"

fun status_value :: "JobStatus \<Rightarrow> string" where
  "status_value PENDING = ''pending''"
| "status_value RUNNING = ''running''"
| "status_value DONE = ''done''"
| "status_value FAILED = ''failed''"

definition to_dict :: "(datetime \<Rightarrow> string) \<Rightarrow> Job \<Rightarrow> JobDict" where
  "to_dict isoformat j =
     \<lparr>d_id = job_id j, d_mode = mode j, d_status = status_value (status j),
      d_created_at = isoformat (created_at j), d_updated_at = isoformat (updated_at j),
      d_log_lines_count = length (log_lines j), d_error = error j,
      d_result_summary = result_summary j\<rparr>"

text \<open>
  The routes of web/main.py that read the store. \<open>HTTPException(status_code, detail)\<close>
  is the error value.
\<close>

datatype http_error = HTTPException nat string

definition get_job_api :: "(datetime \<Rightarrow> string) \<Rightarrow> string \<Rightarrow> store \<Rightarrow> http_error + JobDict" where
  "get_job_api isoformat jid s =
     (case get_job jid s of
        None \<Rightarrow> Inl (HTTPException 404 ''Job not found'')
      | Some job \<Rightarrow> Inr (to_dict isoformat job))"

definition get_job_logs :: "string \<Rightarrow> store \<Rightarrow> http_error + (string \<times> string list)" where
  "get_job_logs jid s =
     (case get_job jid s of
        None \<Rightarrow> Inl (HTTPException 404 ''Job not found'')
      | Some job \<Rightarrow> Inr (jid, log_lines job))"

definition list_jobs_route :: "(datetime \<Rightarrow> string) \<Rightarrow> int option \<Rightarrow> store \<Rightarrow> JobDict list" where
  "list_jobs_route isoformat limit_arg s =
     map (to_dict isoformat) (list_jobs (Some (case limit_arg of None \<Rightarrow> 50 | Some n \<Rightarrow> n)) s)"

section \<open>Running one job (web/runner.py)\<close>

text \<open>
  What a collaborator may raise. \<open>ValueError\<close> is the class the validation handler
  names; \<open>Exception\<close> stands for every other subclass of Python's \<open>Exception\<close>;
  \<open>BaseException\<close> for what \<open>except Exception\<close> does not catch (\<open>SystemExit\<close>,
  \<open>KeyboardInterrupt\<close>). The string is \<open>str(e)\<close>.
\<close>

datatype raised = ValueError string | Exception string | BaseException string

fun str_of :: "raised \<Rightarrow> string" where
  "str_of (ValueError m) = m"
| "str_of (Exception m) = m"
| "str_of (BaseException m) = m"

fun is_Exception :: "raised \<Rightarrow> bool" where
  "is_Exception (BaseException m) = False"
| "is_Exception e = True"

text \<open>
  A record of the engine's logger and its rendering by
  \<open>Formatter("%(asctime)s [%(levelname)s] %(message)s")\<close>.
\<close>

record log_record =
  asctime :: string
  levelname :: string
  message :: string

definition format_record :: "log_record \<Rightarrow> string" where
  "format_record r = asctime r @ '' ['' @ levelname r @ ''] '' @ message r"

text \<open>
  The engine, its validation and its set-up are collaborators outside the program:
  what they do in one run is an input of the model.
  \<^item> \<open>imports_raise\<close>: the imports of the \<open>Core\<close> modules and the building of \<open>ARGS\<close>
    (lines 134 to 151 of runner.py);
  \<^item> \<open>checkArgs_raise\<close>: the call \<open>checkArgs(ARGS, MockParser())\<close>;
  \<open>MockParser.error\<close> raises \<open>ValueError\<close>;
  \<^item> \<open>init_raise\<close>: \<open>GV.ARGS = ARGS\<close>, \<open>set_GLOBAL_VARIABLES()\<close>, \<open>set_LOGGER()\<close>,
    \<open>set_HELP_TEXTS()\<close> and the construction of the handler (lines 165 to 175);
  \<^item> \<open>engine_records\<close>: the records the engine logs through \<open>GV.LOGGER\<close> while it
    runs, in order;
  \<^item> \<open>engine_raise\<close>: how \<open>mode_google_takeout\<close> or \<open>mode_AUTOMATIC_MIGRATION\<close> ends.
\<close>

record collab =
  imports_raise :: "raised option"
  checkArgs_raise :: "raised option"
  init_raise :: "raised option"
  engine_records :: "log_record list"
  engine_raise :: "raised option"

text \<open>
  The effects of \<open>run_mode\<close>, one constructor for each kind of call it makes:
  the two store calls, \<open>GV.LOGGER.addHandler\<close> and \<open>removeHandler\<close> for the
  \<open>_JobLogHandler\<close> bound to a job id, the call of the engine for a mode, and one
  record logged by the engine.
\<close>

datatype op =
    UpdateStatus string JobStatus "string option" "string option"
  | AppendLog string string
  | AddHandler string
  | RemoveHandler string
  | Invoke string
  | Emit log_record

text \<open>
  The process state: the store, the handlers installed on \<open>GV.LOGGER\<close> (each by
  the job id it appends to), the number of store calls made so far, and the
  history of the effects executed (a ghost field, kept to state what did and what did
  not happen). The clock \<open>clk\<close> gives the time \<open>datetime.utcnow()\<close> shows during
  store call number \<open>k\<close>.
\<close>

record world =
  the_store :: store
  handlers :: "string list"
  ticks :: nat
  history :: "op list"

definition init_world :: world where
  "init_world = \<lparr>the_store = empty_store, handlers = [], ticks = 0, history = []\<rparr>"

definition store_call :: "(nat \<Rightarrow> datetime) \<Rightarrow> (datetime \<Rightarrow> store \<Rightarrow> store) \<Rightarrow> world \<Rightarrow> world" where
  "store_call clk f w = w\<lparr>the_store := f (clk (ticks w)) (the_store w), ticks := Suc (ticks w)\<rparr>"

text \<open>
  \<open>_JobLogHandler.emit\<close> for every handler installed: the record is formatted and
  appended to the handler's job.
\<close>

fun emit_all :: "(nat \<Rightarrow> datetime) \<Rightarrow> string list \<Rightarrow> log_record \<Rightarrow> world \<Rightarrow> world" where
  "emit_all clk [] r w = w"
| "emit_all clk (h # hs) r w =
     emit_all clk hs r (store_call clk (\<lambda>now. append_job_log now h (format_record r)) w)"

fun effect :: "(nat \<Rightarrow> datetime) \<Rightarrow> op \<Rightarrow> world \<Rightarrow> world" where
  "effect clk (UpdateStatus jid st err summ) w =
     store_call clk (\<lambda>now. update_job_status now jid st err summ) w"
| "effect clk (AppendLog jid line) w =
     store_call clk (\<lambda>now. append_job_log now jid line) w"
| "effect clk (AddHandler jid) w = w\<lparr>handlers := handlers w @ [jid]\<rparr>"
| "effect clk (RemoveHandler jid) w = w\<lparr>handlers := remove1 jid (handlers w)\<rparr>"
| "effect clk (Invoke md) w = w"
| "effect clk (Emit r) w = emit_all clk (handlers w) r w"

definition exec_op :: "(nat \<Rightarrow> datetime) \<Rightarrow> op \<Rightarrow> world \<Rightarrow> world" where
  "exec_op clk x w = (effect clk x w)\<lparr>history := history w @ [x]\<rparr>"

fun exec_ops :: "(nat \<Rightarrow> datetime) \<Rightarrow> op list \<Rightarrow> world \<Rightarrow> world" where
  "exec_ops clk [] w = w"
| "exec_ops clk (x # xs) w = exec_ops clk xs (exec_op clk x w)"

text \<open>
  The engine call of lines 178 to 186: the dispatch on the mode inside
  \<open>try ... finally: GV.LOGGER.removeHandler(handler)\<close>. The result is the effects in
  order and the exception that leaves the block, if any.
\<close>

definition engine_block :: "collab \<Rightarrow> string \<Rightarrow> string \<Rightarrow> op list \<times> raised option" where
  "engine_block cb jid md =
     (if md = ''google-takeout'' \<or> md = ''automatic-migration''
      then (Invoke md # map Emit (engine_records cb) @ [RemoveHandler jid], engine_raise cb)
      else ([RemoveHandler jid], Some (ValueError (''Unknown mode: '' @ md))))"

text \<open>
  The body of the outer \<open>try\<close> (lines 134 to 188): \<open>return\<close> after a rejected
  validation, otherwise set-up, handler, engine, and the final \<open>DONE\<close>.
\<close>

definition try_body :: "collab \<Rightarrow> string \<Rightarrow> string \<Rightarrow> op list \<times> raised option" where
  "try_body cb jid md =
     (case imports_raise cb of
        Some e \<Rightarrow> ([], Some e)
      | None \<Rightarrow>
     (case checkArgs_raise cb of
        Some (ValueError m) \<Rightarrow> ([UpdateStatus jid FAILED (Some m) None], None)
      | Some e \<Rightarrow> ([], Some e)
      | None \<Rightarrow>
     (case init_raise cb of
        Some e \<Rightarrow> ([], Some e)
      | None \<Rightarrow>
     (case engine_block cb jid md of
        (xs, Some e) \<Rightarrow> (AddHandler jid # xs, Some e)
      | (xs, None) \<Rightarrow>
          (AddHandler jid # xs @
             [UpdateStatus jid DONE None (Some ''Completed successfully'')], None)))))"

text \<open>
  \<open>run_mode\<close> as the list of its effects: \<open>RUNNING\<close> first, the body, and the handler
  \<open>except Exception as e\<close>, which logs \<open>f"Error: {e}"\<close> and records the failure.
  What is not an \<open>Exception\<close> leaves \<open>run_mode\<close>.
\<close>

definition run_mode_ops :: "collab \<Rightarrow> string \<Rightarrow> string \<Rightarrow> op list \<times> raised option" where
  "run_mode_ops cb jid md =
     (case try_body cb jid md of
        (xs, None) \<Rightarrow> (UpdateStatus jid RUNNING None None # xs, None)
      | (xs, Some e) \<Rightarrow>
          (if is_Exception e
           then (UpdateStatus jid RUNNING None None # xs @
                   [AppendLog jid (''Error: '' @ str_of e),
                    UpdateStatus jid FAILED (Some (str_of e)) None], None)
           else (UpdateStatus jid RUNNING None None # xs, Some e)))"

definition run_mode ::
  "(nat \<Rightarrow> datetime) \<Rightarrow> collab \<Rightarrow> string \<Rightarrow> string \<Rightarrow> world \<Rightarrow> raised option \<times> world" where
  "run_mode clk cb jid md w =
     (case run_mode_ops cb jid md of (xs, r) \<Rightarrow> (r, exec_ops clk xs w))"

section \<open>The queue worker (web/main.py)\<close>

text \<open>
  A queue item is \<open>(job_id, mode, args_dict)\<close>, or \<open>None\<close>, the shutdown sentinel. The
  arguments reach only the collaborators, so the third component of an item is what
  the collaborators do with them.
\<close>

type_synonym item = "(string \<times> string \<times> collab) option"

text \<open>
  \<open>_worker\<close> on the items \<open>_job_queue.get()\<close> hands out, in order. On the empty queue
  \<open>get()\<close> blocks: the worker waits. \<open>task_done()\<close> only counts down the queue's
  unfinished tasks, which nothing reads.
\<close>

datatype worker_end = Waiting | Stopped | Died raised

fun worker :: "(nat \<Rightarrow> datetime) \<Rightarrow> item list \<Rightarrow> world \<Rightarrow> worker_end \<times> world" where
  "worker clk [] w = (Waiting, w)"
| "worker clk (None # q) w = (Stopped, w)"
| "worker clk (Some (jid, md, cb) # q) w =
     (case run_mode clk cb jid md w of
        (None, w') \<Rightarrow> worker clk q w'
      | (Some e, w') \<Rightarrow> (if is_Exception e then worker clk q w' else (Died e, w')))"

text \<open>
  The whole system, with the worker between two effects of a run: the routes
  create a job and put its item on the queue while the worker thread runs.
\<close>

datatype worker_state = Idle | Busy "op list" "raised option" | Halted

record system =
  sys_world :: world
  queue :: "item list"
  wstate :: worker_state

definition init_system :: system where
  "init_system = \<lparr>sys_world = init_world, queue = [], wstate = Idle\<rparr>"

text \<open>
  \<open>start_google_takeout\<close>, \<open>start_automatic_migration\<close> and the two form routes:
  \<open>jobs.create_job(mode)\<close>, then \<open>_job_queue.put((job.id, mode, args))\<close>.
\<close>

definition start_job :: "(nat \<Rightarrow> datetime) \<Rightarrow> string \<Rightarrow> string \<Rightarrow> collab \<Rightarrow> system \<Rightarrow> system" where
  "start_job clk uuid md cb s =
     s\<lparr>sys_world := store_call clk (\<lambda>now st. snd (create_job uuid now md st)) (sys_world s),
       queue := queue s @ [Some (uuid, md, cb)]\<rparr>"

text \<open>
  One step of the system. A route starts a job (\<open>uuid.uuid4()\<close> gives an id not used
  before); the lifespan hook puts the sentinel; the idle worker takes the next item;
  the busy worker executes its next effect; a run ends, and the worker goes on unless
  something that is not an \<open>Exception\<close> left \<open>run_mode\<close>.
\<close>

inductive sys_step :: "(nat \<Rightarrow> datetime) \<Rightarrow> system \<Rightarrow> system \<Rightarrow> bool" for clk where
  Start: "uuid \<notin> dom (jobs (the_store (sys_world s))) \<Longrightarrow> sys_step clk s (start_job clk uuid md cb s)"
| Shutdown: "sys_step clk s (s\<lparr>queue := queue s @ [None]\<rparr>)"
| Take: "wstate s = Idle \<Longrightarrow> queue s = Some (jid, md, cb) # q \<Longrightarrow> run_mode_ops cb jid md = (xs, r) \<Longrightarrow>
         sys_step clk s (s\<lparr>queue := q, wstate := Busy xs r\<rparr>)"
| Sentinel: "wstate s = Idle \<Longrightarrow> queue s = None # q \<Longrightarrow>
         sys_step clk s (s\<lparr>queue := q, wstate := Halted\<rparr>)"
| Exec: "wstate s = Busy (x # xs) r \<Longrightarrow>
         sys_step clk s (s\<lparr>sys_world := exec_op clk x (sys_world s), wstate := Busy xs r\<rparr>)"
| Finish: "wstate s = Busy [] r \<Longrightarrow>
         sys_step clk s (s\<lparr>wstate := (case r of None \<Rightarrow> Idle
                                       | Some e \<Rightarrow> if is_Exception e then Idle else Halted)\<rparr>)"

text \<open>
  The executions of the system: the states it passes through from the start, in
  order. What an observer of job \<open>jid\<close> sees along an execution is the sequence of its
  status values, a repeated value counted once.
\<close>

inductive execution :: "(nat \<Rightarrow> datetime) \<Rightarrow> system list \<Rightarrow> bool" for clk where
  Begin: "execution clk [init_system]"
| Next: "execution clk (tr @ [s]) \<Longrightarrow> sys_step clk s s' \<Longrightarrow> execution clk (tr @ [s, s'])"

definition status_of :: "system \<Rightarrow> string \<Rightarrow> JobStatus option" where
  "status_of s jid = map_option status (jobs (the_store (sys_world s)) jid)"

definition observed :: "string \<Rightarrow> system list \<Rightarrow> JobStatus list" where
  "observed jid tr = remdups_adj (List.map_filter (\<lambda>s. status_of s jid) tr)"

section \<open>Strings\<close>

text \<open>
  A \<open>char\<close> stands for one character of a Python \<open>str\<close>, with its code point below
  256. The characters that \<open>str.strip\<close>, \<open>str.isspace\<close> and the regular expression
  class \<open>\s\<close> take for white space are, in that range, the code points 9 to 13, 28 to
  32, 133 and 160.
\<close>

definition isspace :: "char \<Rightarrow> bool" where
  "isspace c \<longleftrightarrow> c \<in> set [CHR 0x09, CHR 0x0A, CHR 0x0B, CHR 0x0C, CHR 0x0D, CHR 0x1C, CHR 0x1D,
                         CHR 0x1E, CHR 0x1F, CHR 0x20, CHR 0x85, CHR 0xA0]"

definition lstrip :: "string \<Rightarrow> string" where
  "lstrip s = dropWhile isspace s"

definition rstrip :: "string \<Rightarrow> string" where
  "rstrip s = rev (dropWhile isspace (rev s))"

definition strip :: "string \<Rightarrow> string" where
  "strip s = lstrip (rstrip s)"

text \<open>\<open>s.find(c)\<close> for a single character: the first index, or \<open>None\<close> for -1.\<close>

definition str_find :: "char \<Rightarrow> string \<Rightarrow> nat option" where
  "str_find c s = (if c \<in> set s then Some (length (takeWhile (\<lambda>x. x \<noteq> c) s)) else None)"

text \<open>\<open>s.replace(a, b)\<close> for single characters \<open>a\<close> and \<open>b\<close>.\<close>

definition replace :: "char \<Rightarrow> char \<Rightarrow> string \<Rightarrow> string" where
  "replace a b s = map (\<lambda>c. if c = a then b else c) s"

text \<open>
  \<open>s.upper()\<close>: the small letters \<open>a\<close> to \<open>z\<close> and those of the code points 224 to
  254 (but 247, the division sign) become capitals; the sharp s (223) becomes \<open>SS\<close>.
  The capitals of the code points 181 and 255 lie above 255; they are left as they are
  here, which changes no test for an ASCII word.
\<close>

definition upper_char :: "char \<Rightarrow> string" where
  "upper_char c =
     (let n = (of_char c :: nat) in
      if 97 \<le> n \<and> n \<le> 122 then [char_of (n - 32)]
      else if n = 223 then ''SS''
      else if 224 \<le> n \<and> n \<le> 254 \<and> n \<noteq> 247 then [char_of (n - 32)]
      else [c])"

definition upper :: "string \<Rightarrow> string" where
  "upper s = concat (map upper_char s)"

text \<open>
  \<open>sep.join(xs)\<close>, and \<open>s.split(sep, 1)\<close> for a separator that occurs in \<open>s\<close>: the
  parts before and after its first occurrence (\<open>None\<close> when it does not occur).
\<close>

fun join :: "string \<Rightarrow> string list \<Rightarrow> string" where
  "join sep [] = []"
| "join sep [x] = x"
| "join sep (x # y # ys) = x @ sep @ join sep (y # ys)"

fun split_once :: "string \<Rightarrow> string \<Rightarrow> (string \<times> string) option" where
  "split_once sep [] = None"
| "split_once sep (c # cs) =
     (if prefix sep (c # cs) then Some ([], drop (length sep) (c # cs))
      else map_option (\<lambda>(a, b). (c # a, b)) (split_once sep cs))"

text \<open>
  A Python \<open>dict\<close> where the order of the keys matters: the items in insertion order.
  \<open>d[k] = v\<close> keeps the place of a key that is there and puts a new key last.
\<close>

fun dict_set :: "('k \<times> 'v) list \<Rightarrow> 'k \<Rightarrow> 'v \<Rightarrow> ('k \<times> 'v) list" where
  "dict_set [] k v = [(k, v)]"
| "dict_set ((k', v') # d) k v = (if k' = k then (k, v) # d else (k', v') # dict_set d k v)"

definition dict_of :: "('k \<times> 'v) list \<Rightarrow> ('k \<times> 'v) list" where
  "dict_of kvs = foldl (\<lambda>d (k, v). dict_set d k v) [] kvs"

section \<open>The configuration schema (web/config_ini.py)\<close>

definition FORM_SEP :: string where
  "FORM_SEP = ''||''"

text \<open>
  The two tables of help texts. The arrow of the source (the code point U+2192,
  above 255) is written as the three bytes of its UTF-8 form; no operation of the
  program looks into a help text.
\<close>

definition SECTION_HINTS :: "(string \<times> string) list" where
  "SECTION_HINTS =
    [(''Google Takeout'',
        ''No configuration needed for this module for the time being.''),
     (''Synology Photos'',
        ''Set the URL to your Synology server (IP or hostname). Use SYNOLOGY_USERNAME_'' @
        ''n and SYNOLOGY_PASSWORD_n for each account (n = 1, 2, or 3).''),
     (''Immich Photos'',
        ''Set the Immich server URL and either API keys (Account Settings '' @
        [CHR 0xE2, CHR 0x86, CHR 0x92] @
        '' API Keys) or username/password per account. ADMIN_API_KEY is required for s'' @
        ''ome operations (e.g. remove orphan assets).''),
     (''Apple Photos'',
        ''iCloud Apple Photos: use album = all for all albums; set to_directory for do'' @
        ''wnload path; date_from/date_to and asset_from/asset_to for date filters; max'' @
        ''_photos to limit downloads; shared_library (e.g. PrimarySync) for library se'' @
        ''lection.''),
     (''Google Photos'',
        ''No configuration needed for this module for the time being.''),
     (''TimeZone'',
        ''Optional timezone for interpreting photo dates. When EXIF/metadata has no ti'' @
        ''mezone (e.g. '2024:06:15 14:30:00' without offset), the tool currently uses '' @
        ''the machine's local timezone where the app runs. Photos taken in a different'' @
        '' timezone are then interpreted as if they were in that local timezone, which'' @
        '' can affect date-based grouping, album naming, and filtering. This setting i'' @
        ''s stored for features that may use it; set it to the IANA timezone where mos'' @
        ''t of your photos were taken (e.g. US/Central) for future or optional overrid'' @
        ''e behavior.'')]"

definition OPTION_HINTS :: "((string \<times> string) \<times> string) list" where
  "OPTION_HINTS =
    [((''Synology Photos'', ''SYNOLOGY_URL''),
        ''URL of your Synology server (e.g. http://192.168.1.11:5000) or your valid Sy'' @
        ''nology hostname.''),
     ((''Synology Photos'', ''SYNOLOGY_USERNAME_1''),
        ''Account 1: Your username for Synology Photos.''),
     ((''Synology Photos'', ''SYNOLOGY_PASSWORD_1''),
        ''Account 1: Your password for Synology Photos.''),
     ((''Synology Photos'', ''SYNOLOGY_USERNAME_2''),
        ''Account 2: Your username for Synology Photos.''),
     ((''Synology Photos'', ''SYNOLOGY_PASSWORD_2''),
        ''Account 2: Your password for Synology Photos.''),
     ((''Synology Photos'', ''SYNOLOGY_USERNAME_3''),
        ''Account 3: Your username for Synology Photos.''),
     ((''Synology Photos'', ''SYNOLOGY_PASSWORD_3''),
        ''Account 3: Your password for Synology Photos.''),
     ((''Immich Photos'', ''IMMICH_URL''),
        ''URL of your Immich server (e.g. http://192.168.1.11:2283).''),
     ((''Immich Photos'', ''IMMICH_API_KEY_ADMIN''),
        ''Admin API key from Immich (Account Settings '' @
        [CHR 0xE2, CHR 0x86, CHR 0x92] @
        '' API Keys). Required for some operations.''),
     ((''Immich Photos'', ''IMMICH_API_KEY_USER_1''),
        ''Account 1: User API key from Immich (Account Settings '' @
        [CHR 0xE2, CHR 0x86, CHR 0x92] @
        '' API Keys).''),
     ((''Immich Photos'', ''IMMICH_USERNAME_1''),
        ''Account 1: Username (used if API key not provided).''),
     ((''Immich Photos'', ''IMMICH_PASSWORD_1''),
        ''Account 1: Password (used if API key not provided).''),
     ((''Immich Photos'', ''IMMICH_API_KEY_USER_2''),
        ''Account 2: User API key.''),
     ((''Immich Photos'', ''IMMICH_USERNAME_2''),
        ''Account 2: Username.''),
     ((''Immich Photos'', ''IMMICH_PASSWORD_2''),
        ''Account 2: Password.''),
     ((''Immich Photos'', ''IMMICH_API_KEY_USER_3''),
        ''Account 3: User API key.''),
     ((''Immich Photos'', ''IMMICH_USERNAME_3''),
        ''Account 3: Username.''),
     ((''Immich Photos'', ''IMMICH_PASSWORD_3''),
        ''Account 3: Password.''),
     ((''Apple Photos'', ''appleid''),
        ''Your Apple ID for iCloud.''),
     ((''Apple Photos'', ''applepwd''),
        ''Your Apple ID password.''),
     ((''Apple Photos'', ''album''),
        ''Album name to download, or 'all' for all albums.''),
     ((''Apple Photos'', ''to_directory''),
        ''Directory path where photos will be downloaded (year/month/day structure wil'' @
        ''l be created).''),
     ((''Apple Photos'', ''date_from''),
        ''Filter: photos added to library from this date.''),
     ((''Apple Photos'', ''date_to''),
        ''Filter: photos added to library until this date.''),
     ((''Apple Photos'', ''asset_from''),
        ''Filter: asset date from.''),
     ((''Apple Photos'', ''asset_to''),
        ''Filter: asset date to.''),
     ((''Apple Photos'', ''max_photos''),
        ''Maximum number of photos to download (safety limit).''),
     ((''Apple Photos'', ''shared_library''),
        ''Library identifier (e.g. PrimarySync for main library).''),
     ((''TimeZone'', ''timezone''),
        ''IANA timezone name (e.g. US/Central, Europe/London). Used when the tool inte'' @
        ''rprets date/time from photos that have no timezone in metadata; set to the t'' @
        ''imezone where your photos were typically taken so date-based features (sorti'' @
        ''ng, album names, filters) are consistent. Currently the app may use the serv'' @
        ''er's system timezone if this is not applied yet.'')]"

definition strip_inline_comment :: "string \<Rightarrow> string" where
  "strip_inline_comment value =
     (if value = [] then value
      else strip (case str_find CHR ''#'' value of Some i \<Rightarrow> take i value | None \<Rightarrow> value))"

definition get_option_hint :: "string \<Rightarrow> string \<Rightarrow> string" where
  "get_option_hint section k = (case map_of OPTION_HINTS (section, k) of Some h \<Rightarrow> h | None \<Rightarrow> [])"

definition get_section_hint :: "string \<Rightarrow> string" where
  "get_section_hint section = (case map_of SECTION_HINTS section of Some h \<Rightarrow> h | None \<Rightarrow> [])"

definition is_password_key :: "string \<Rightarrow> bool" where
  "is_password_key k0 =
     (let k = upper k0
      in sublist ''PASSWORD'' k \<or> sublist ''API_KEY'' k \<or> sublist ''SECRET'' k
         \<or> k \<in> set [''APPLEPWD''])"

definition section_to_form :: "string \<Rightarrow> string" where
  "section_to_form section = replace CHR '' '' CHR ''_'' section"

definition form_to_section :: "string \<Rightarrow> string" where
  "form_to_section form_section = replace CHR ''_'' CHR '' '' form_section"

text \<open>
  The dicts of an option and of a section, as records. The key \<open>value\<close> is the field
  \<open>val\<close>; the keys \<open>form_section\<close> and \<open>hint\<close> of a section are \<open>sect_form_section\<close> and
  \<open>sect_hint\<close>.
\<close>

record cfg_option =
  key :: string
  val :: string
  is_password :: bool
  form_section :: string
  hint :: string

record cfg_section =
  name :: string
  sect_form_section :: string
  sect_hint :: string
  options :: "cfg_option list"

text \<open>
  \<open>_default_sections_structure\<close>. Every option dict of the literal has the form
  \<open>{"key": k, "value": v, "is_password": p, "form_section": _section_to_form(s),
  "hint": _get_option_hint(s, k)}\<close> for the name \<open>s\<close> of its section, and every section
  dict the form \<open>{"name": s, "form_section": _section_to_form(s),
  "hint": _get_section_hint(s), "options": [...]}\<close>.
\<close>

definition schema_option :: "string \<Rightarrow> string \<Rightarrow> string \<Rightarrow> bool \<Rightarrow> cfg_option" where
  "schema_option s k v p =
     \<lparr>key = k, val = v, is_password = p, form_section = section_to_form s,
      hint = get_option_hint s k\<rparr>"

definition schema_section :: "string \<Rightarrow> cfg_option list \<Rightarrow> cfg_section" where
  "schema_section s opts =
     \<lparr>name = s, sect_form_section = section_to_form s, sect_hint = get_section_hint s,
      options = opts\<rparr>"

definition default_sections_structure :: "cfg_section list" where
  "default_sections_structure =
    [schema_section ''Google Takeout'' [],
     schema_section ''Synology Photos''
       [schema_option ''Synology Photos'' ''SYNOLOGY_URL'' '''' False,
        schema_option ''Synology Photos'' ''SYNOLOGY_USERNAME_1'' '''' False,
        schema_option ''Synology Photos'' ''SYNOLOGY_PASSWORD_1'' '''' True,
        schema_option ''Synology Photos'' ''SYNOLOGY_USERNAME_2'' '''' False,
        schema_option ''Synology Photos'' ''SYNOLOGY_PASSWORD_2'' '''' True,
        schema_option ''Synology Photos'' ''SYNOLOGY_USERNAME_3'' '''' False,
        schema_option ''Synology Photos'' ''SYNOLOGY_PASSWORD_3'' '''' True],
     schema_section ''Immich Photos''
       [schema_option ''Immich Photos'' ''IMMICH_URL'' '''' False,
        schema_option ''Immich Photos'' ''IMMICH_API_KEY_ADMIN'' '''' True,
        schema_option ''Immich Photos'' ''IMMICH_API_KEY_USER_1'' '''' True,
        schema_option ''Immich Photos'' ''IMMICH_USERNAME_1'' '''' False,
        schema_option ''Immich Photos'' ''IMMICH_PASSWORD_1'' '''' True,
        schema_option ''Immich Photos'' ''IMMICH_API_KEY_USER_2'' '''' True,
        schema_option ''Immich Photos'' ''IMMICH_USERNAME_2'' '''' False,
        schema_option ''Immich Photos'' ''IMMICH_PASSWORD_2'' '''' True,
        schema_option ''Immich Photos'' ''IMMICH_API_KEY_USER_3'' '''' True,
        schema_option ''Immich Photos'' ''IMMICH_USERNAME_3'' '''' False,
        schema_option ''Immich Photos'' ''IMMICH_PASSWORD_3'' '''' True],
     schema_section ''Apple Photos''
       [schema_option ''Apple Photos'' ''appleid'' '''' False,
        schema_option ''Apple Photos'' ''applepwd'' '''' True,
        schema_option ''Apple Photos'' ''album'' ''all'' False,
        schema_option ''Apple Photos'' ''to_directory'' '''' False,
        schema_option ''Apple Photos'' ''date_from'' '''' False,
        schema_option ''Apple Photos'' ''date_to'' '''' False,
        schema_option ''Apple Photos'' ''asset_from'' '''' False,
        schema_option ''Apple Photos'' ''asset_to'' '''' False,
        schema_option ''Apple Photos'' ''max_photos'' ''10000'' False,
        schema_option ''Apple Photos'' ''shared_library'' ''PrimarySync'' False],
     schema_section ''Google Photos'' [],
     schema_section ''TimeZone''
       [schema_option ''TimeZone'' ''timezone'' ''US/Central'' False]]"

text \<open>
  \<open>_merge_parsed_with_schema\<close>. \<open>by_name\<close> and \<open>schema_keys\<close> are dicts built by
  comprehensions; the loop over the options of the file section overwrites the value
  of the schema option with the same key; \<open>keys_out\<close> are the values of \<open>schema_keys\<close>,
  each with its \<open>form_section\<close> set.
\<close>

definition set_file_value :: "(string \<times> cfg_option) list \<Rightarrow> cfg_option \<Rightarrow> (string \<times> cfg_option) list" where
  "set_file_value schema_keys k =
     (case map_of schema_keys (key k) of
        None \<Rightarrow> schema_keys
      | Some x \<Rightarrow> dict_set schema_keys (key k) (x\<lparr>val := val k\<rparr>))"

definition merge_section :: "(string \<times> cfg_section) list \<Rightarrow> cfg_section \<Rightarrow> cfg_section" where
  "merge_section by_name sect =
     (let nm = name sect;
          schema_keys = dict_of (map (\<lambda>k. (key k, k)) (options sect));
          schema_keys = (case map_of by_name nm of
                           None \<Rightarrow> schema_keys
                         | Some fsect \<Rightarrow> foldl set_file_value schema_keys (options fsect));
          keys_out = map snd schema_keys;
          keys_out = map (\<lambda>k. k\<lparr>form_section := section_to_form nm\<rparr>) keys_out
      in \<lparr>name = nm, sect_form_section = section_to_form nm, sect_hint = get_section_hint nm,
          options = keys_out\<rparr>)"

definition merge_parsed_with_schema :: "cfg_section list \<Rightarrow> cfg_section list \<Rightarrow> cfg_section list" where
  "merge_parsed_with_schema parsed schema =
     (let by_name = dict_of (map (\<lambda>s. (name s, s)) parsed)
      in map (merge_section by_name) schema)"

section \<open>Reading a file with \<open>ConfigParser\<close>\<close>

text \<open>
  \<open>parse_config\<close> reads the file with the standard library's \<open>ConfigParser\<close>, with
  \<open>optionxform = str\<close> and otherwise the defaults: the delimiters \<open>=\<close> and \<open>:\<close>, the
  prefixes \<open>#\<close> and \<open>;\<close> for whole-line comments, no inline comments, \<open>strict\<close>,
  \<open>empty_lines_in_values\<close>, no option without a value, the default section \<open>DEFAULT\<close>.
  What follows is the method \<open>_read\<close> of Python 3.11 under these settings.

  A file opened as text is read line by line, a line ending at \<open>\n\<close>, \<open>\r\<close> or
  \<open>\r\n\<close>; the lines are kept here without their ends, which \<open>_read\<close> strips anyway.
\<close>

fun lines_from :: "string \<Rightarrow> string \<Rightarrow> string list" where
  "lines_from cur [] = (if cur = [] then [] else [cur])"
| "lines_from cur (c # cs) =
     (if c = CHR 0x0A then cur # lines_from [] cs
      else if c = CHR 0x0D then
        (case cs of
           [] \<Rightarrow> cur # lines_from [] cs
         | d # ds \<Rightarrow> if d = CHR 0x0A then cur # lines_from [] ds else cur # lines_from [] cs)
      else lines_from (cur @ [c]) cs)"

definition file_lines :: "string \<Rightarrow> string list" where
  "file_lines txt = lines_from [] txt"

datatype cp_error =
  MissingSectionHeaderError | DuplicateSectionError | DuplicateOptionError | ParsingError

text \<open>
  The state of \<open>_read\<close>: the parser's \<open>_sections\<close> and \<open>_defaults\<close> (each option with the
  list of the lines of its value), and the local variables. \<open>cursect\<close> is the dict of
  the section named by \<open>sectname\<close>: \<open>_defaults\<close> for \<open>DEFAULT\<close>. \<open>elements_added\<close> holds a
  section name as \<open>(s, None)\<close> and a pair of section and option as \<open>(s, Some k)\<close>;
  \<open>parse_errors\<close> tells that \<open>e\<close> is set.
\<close>

record reader =
  r_sections :: "(string \<times> (string \<times> string list) list) list"
  r_defaults :: "(string \<times> string list) list"
  elements_added :: "(string \<times> string option) list"
  sectname :: "string option"
  optname :: "string option"
  indent_level :: nat
  parse_errors :: bool

definition new_reader :: reader where
  "new_reader = \<lparr>r_sections = [], r_defaults = [], elements_added = [], sectname = None,
     optname = None, indent_level = 0, parse_errors = False\<rparr>"

definition cursect_update ::
  "((string \<times> string list) list \<Rightarrow> (string \<times> string list) list) \<Rightarrow> reader \<Rightarrow> reader" where
  "cursect_update f r =
     (case sectname r of
        None \<Rightarrow> r
      | Some s \<Rightarrow>
          if s = ''DEFAULT'' then r\<lparr>r_defaults := f (r_defaults r)\<rparr>
          else r\<lparr>r_sections := map (\<lambda>(n, d). if n = s then (n, f d) else (n, d)) (r_sections r)\<rparr>)"

text \<open>\<open>cursect[optname].append(v)\<close>.\<close>

definition append_value :: "string \<Rightarrow> reader \<Rightarrow> reader" where
  "append_value v r =
     (case optname r of
        None \<Rightarrow> r
      | Some k \<Rightarrow> cursect_update (map (\<lambda>(k', vs). if k' = k then (k', vs @ [v]) else (k', vs))) r)"

text \<open>
  \<open>SECTCRE.match(value)\<close> for the pattern \<open>\[(?P<header>.+)\]\<close>: the value begins with
  \<open>[\<close>, and the header, which is not empty, reaches to the last \<open>]\<close>.
  \<open>OPTCRE.match(value)\<close> for \<open>(?P<option>.*?)\s*(?P<vi>=|:)\s*(?P<value>.*)$\<close>: the
  option ends before the white space in front of the first delimiter, the value
  begins after the white space that follows it.
\<close>

definition match_section :: "string \<Rightarrow> string option" where
  "match_section value =
     (case value of
        [] \<Rightarrow> None
      | c # rest \<Rightarrow>
          if c \<noteq> CHR ''['' then None
          else (case dropWhile (\<lambda>x. x \<noteq> CHR '']'') (rev rest) of
                  [] \<Rightarrow> None
                | b # h \<Rightarrow> if h = [] then None else Some (rev h)))"

definition match_option :: "string \<Rightarrow> (string \<times> string) option" where
  "match_option value =
     (case dropWhile (\<lambda>c. c \<noteq> CHR ''='' \<and> c \<noteq> CHR '':'') value of
        [] \<Rightarrow> None
      | d # rest \<Rightarrow>
          Some (rstrip (takeWhile (\<lambda>c. c \<noteq> CHR ''='' \<and> c \<noteq> CHR '':'') value), lstrip rest))"

text \<open>The body of the loop of \<open>_read\<close> for one line.\<close>

definition read_line :: "string \<Rightarrow> reader \<Rightarrow> cp_error + reader" where
  "read_line line r =
     (let is_comment = (prefix ''#'' (strip line) \<or> prefix '';'' (strip line));
          value = (if is_comment then [] else strip line);
          in_option = (sectname r \<noteq> None \<and> optname r \<noteq> None \<and> optname r \<noteq> Some [])
      in if value = [] then
           Inr (if \<not> is_comment \<and> in_option then append_value [] r else r)
         else
           let cur_indent_level = length (takeWhile isspace line)
           in if in_option \<and> cur_indent_level > indent_level r then Inr (append_value value r)
              else
                let r = r\<lparr>indent_level := cur_indent_level\<rparr>
                in (case match_section value of
                      Some header \<Rightarrow>
                        if header \<in> set (map fst (r_sections r)) then
                          (if (header, None) \<in> set (elements_added r)
                           then Inl DuplicateSectionError
                           else Inr (r\<lparr>sectname := Some header,
                                       elements_added := (header, None) # elements_added r,
                                       optname := None\<rparr>))
                        else if header = ''DEFAULT'' then
                          Inr (r\<lparr>sectname := Some header, optname := None\<rparr>)
                        else
                          Inr (r\<lparr>r_sections := r_sections r @ [(header, [])],
                                  sectname := Some header,
                                  elements_added := (header, None) # elements_added r,
                                  optname := None\<rparr>)
                    | None \<Rightarrow>
                        (case sectname r of
                           None \<Rightarrow> Inl MissingSectionHeaderError
                         | Some sn \<Rightarrow>
                             (case match_option value of
                                Some (oname, optval) \<Rightarrow>
                                  let r = (if oname = [] then r\<lparr>parse_errors := True\<rparr> else r);
                                      oname = rstrip oname
                                  in if (sn, Some oname) \<in> set (elements_added r)
                                     then Inl DuplicateOptionError
                                     else Inr (cursect_update (\<lambda>d. dict_set d oname [strip optval])
                                            (r\<lparr>optname := Some oname,
                                               elements_added := (sn, Some oname) # elements_added r\<rparr>))
                              | None \<Rightarrow> Inr (r\<lparr>parse_errors := True\<rparr>)))))"

fun read_lines :: "string list \<Rightarrow> reader \<Rightarrow> cp_error + reader" where
  "read_lines [] r = Inr r"
| "read_lines (l # ls) r = (case read_line l r of Inl e \<Rightarrow> Inl e | Inr r' \<Rightarrow> read_lines ls r')"

text \<open>
  What the parser holds after a read without error: \<open>_join_multiline_values\<close> has
  joined the lines of every value with \<open>\n\<close> and stripped the end.
\<close>

record ini =
  ini_defaults :: "(string \<times> string) list"
  ini_sections :: "(string \<times> (string \<times> string) list) list"

definition join_values :: "(string \<times> string list) list \<Rightarrow> (string \<times> string) list" where
  "join_values d = map (\<lambda>(k, vs). (k, rstrip (join [CHR 0x0A] vs))) d"

definition cp_read :: "string \<Rightarrow> cp_error + ini" where
  "cp_read txt =
     (case read_lines (file_lines txt) new_reader of
        Inl e \<Rightarrow> Inl e
      | Inr r \<Rightarrow>
          if parse_errors r then Inl ParsingError
          else Inr \<lparr>ini_defaults = join_values (r_defaults r),
                    ini_sections = map (\<lambda>(n, d). (n, join_values d)) (r_sections r)\<rparr>)"

text \<open>
  For one section, the keys \<open>cp.options(section)\<close> lists, each with the value
  \<open>cp.get(section, key, raw=True)\<close> returns: the options of the section, then those of
  \<open>DEFAULT\<close> that the section does not have.
\<close>

definition cp_items :: "(string \<times> string) list \<Rightarrow> (string \<times> string) list \<Rightarrow> (string \<times> string) list" where
  "cp_items d dflt = d @ filter (\<lambda>(k, v). k \<notin> set (map fst d)) dflt"

text \<open>
  The file behind the path: missing; there but not to be opened (an \<open>OSError\<close>, which
  \<open>cp.read\<close> passes over); not UTF-8 (a \<open>UnicodeDecodeError\<close> leaves \<open>cp.read\<close>); or a
  text.
\<close>

datatype file_state = Missing | Unopenable | Undecodable | Text string

definition parse_config :: "file_state \<Rightarrow> cfg_section list" where
  "parse_config path =
     (case path of
        Missing \<Rightarrow> default_sections_structure
      | Undecodable \<Rightarrow> default_sections_structure
      | Unopenable \<Rightarrow> default_sections_structure
      | Text txt \<Rightarrow>
          (case cp_read txt of
             Inl e \<Rightarrow> default_sections_structure
           | Inr cp \<Rightarrow>
               let sections_out =
                     map (\<lambda>(section, d).
                            \<lparr>name = section, sect_form_section = section_to_form section,
                             sect_hint = get_section_hint section,
                             options =
                               map (\<lambda>(k, raw_value).
                                      \<lparr>key = k, val = strip_inline_comment raw_value,
                                       is_password = is_password_key k,
                                       form_section = section_to_form section,
                                       hint = get_option_hint section k\<rparr>)
                                   (cp_items d (ini_defaults cp))\<rparr>)
                         (ini_sections cp)
               in if sections_out = [] then default_sections_structure else sections_out))"

definition parse_config_with_schema :: "file_state \<Rightarrow> cfg_section list" where
  "parse_config_with_schema path =
     (let schema = default_sections_structure
      in if path = Missing then schema
         else let parsed = parse_config path
              in if parsed = [] then schema else merge_parsed_with_schema parsed schema)"

section \<open>Building the file from the form\<close>

text \<open>
  \<open>build_ini_from_form\<close>. The form data are a dict from field name to value, here its
  items in order. \<open>by_section\<close> collects the pairs of key and stripped value under the
  decoded section name.
\<close>

definition form_field_name :: "string \<Rightarrow> string \<Rightarrow> string" where
  "form_field_name fsect k = ''v'' @ FORM_SEP @ fsect @ FORM_SEP @ k"

definition collect_field ::
  "(string \<times> (string \<times> string) list) list \<Rightarrow> string \<times> string \<Rightarrow> (string \<times> (string \<times> string) list) list" where
  "collect_field by_section item =
     (case item of (form_key, value) \<Rightarrow>
        let pre = ''v'' @ FORM_SEP
        in if \<not> prefix pre form_key then by_section
           else (case split_once FORM_SEP (drop (length pre) form_key) of
                   None \<Rightarrow> by_section
                 | Some (fsect, k) \<Rightarrow>
                     let section = form_to_section fsect;
                         value = strip value;
                         pairs = (case map_of by_section section of None \<Rightarrow> [] | Some ps \<Rightarrow> ps)
                     in dict_set by_section section (pairs @ [(k, value)])))"

definition build_ini_from_form :: "(string \<times> string) list \<Rightarrow> string" where
  "build_ini_from_form form_data =
     (let by_section = foldl collect_field [] form_data;
          schema = default_sections_structure;
          value_by_section_key = map (\<lambda>(section, pairs). (section, dict_of pairs)) by_section;
          lines = [''# Config.ini File'', ''''] @
            concat (map (\<lambda>sect.
                let nm = name sect;
                    vals = (case map_of value_by_section_key nm of None \<Rightarrow> [] | Some d \<Rightarrow> d)
                in [''['' @ nm @ '']''] @
                   map (\<lambda>key_info.
                          let k = key key_info;
                              v = (case map_of vals k of None \<Rightarrow> [] | Some x \<Rightarrow> x)
                          in k @ '' = '' @ v)
                       (options sect) @
                   ['''']) schema)
      in strip (join [CHR 0x0A] lines) @ [CHR 0x0A])"

section \<open>Auxiliary definitions for the statements\<close>

text \<open>The store after \<open>n\<close> calls of \<open>create_job\<close>, with ids \<open>j\<close>, \<open>jj\<close>, \<open>jjj\<close>, ...\<close>

fun created :: "nat \<Rightarrow> store" where
  "created 0 = empty_store"
| "created (Suc n) = snd (create_job (replicate (Suc n) CHR ''j'') n ''google-takeout'' (created n))"

fun is_Invoke :: "op \<Rightarrow> bool" where
  "is_Invoke (Invoke md) = True"
| "is_Invoke x = False"

fun is_AddHandler :: "op \<Rightarrow> bool" where
  "is_AddHandler (AddHandler j) = True"
| "is_AddHandler x = False"

text \<open>
  Two behaviours of the collaborators: the validation rejects the arguments; the
  engine logs one record and raises \<open>RuntimeError("disk full")\<close>. And a world with
  one job in the store.
\<close>

definition cb_rejected :: collab where
  "cb_rejected = \<lparr>imports_raise = None, checkArgs_raise = Some (ValueError ''bad folder''),
     init_raise = None, engine_records = [], engine_raise = None\<rparr>"

definition cb_disk_full :: collab where
  "cb_disk_full = \<lparr>imports_raise = None, checkArgs_raise = None, init_raise = None,
     engine_records = [\<lparr>asctime = ''12:00'', levelname = ''INFO'', message = ''start''\<rparr>],
     engine_raise = Some (Exception ''disk full'')\<rparr>"

definition one_job_world :: world where
  "one_job_world = init_world\<lparr>the_store := created 1\<rparr>"

text \<open>
  For the worker after a fault: the engine ends by \<open>sys.exit("aborted")\<close>, which
  raises \<open>SystemExit\<close>, not an \<open>Exception\<close>; the engine logs one record and returns;
  a world with two jobs in the store; and how the worker ends on a queue of which the
  last run left \<open>r\<close>: it waits for the next item, or the thread has died.
\<close>

definition cb_exit :: collab where
  "cb_exit = \<lparr>imports_raise = None, checkArgs_raise = None, init_raise = None,
     engine_records = [], engine_raise = Some (BaseException ''aborted'')\<rparr>"

definition cb_ok :: collab where
  "cb_ok = \<lparr>imports_raise = None, checkArgs_raise = None, init_raise = None,
     engine_records = [\<lparr>asctime = ''12:05'', levelname = ''INFO'', message = ''moved''\<rparr>],
     engine_raise = None\<rparr>"

definition two_job_world :: world where
  "two_job_world = init_world\<lparr>the_store := created 2\<rparr>"

definition worker_end_of :: "raised option \<Rightarrow> worker_end" where
  "worker_end_of r = (case r of None \<Rightarrow> Waiting | Some e \<Rightarrow> Died e)"

text \<open>
  For the invariant of the system: the status updates of job \<open>jid\<close> that the busy
  worker still has to execute, the ids waiting in the queue, and the legal status
  sequences.
\<close>

fun op_update :: "string \<Rightarrow> op \<Rightarrow> JobStatus option" where
  "op_update jid (UpdateStatus j st err summ) = (if j = jid then Some st else None)"
| "op_update jid x = None"

definition future :: "system \<Rightarrow> string \<Rightarrow> JobStatus list" where
  "future s jid = (case wstate s of Busy xs r \<Rightarrow> List.map_filter (op_update jid) xs | _ \<Rightarrow> [])"

definition legal :: "JobStatus list \<Rightarrow> bool" where
  "legal l \<longleftrightarrow> prefix l [PENDING, RUNNING, DONE] \<or> prefix l [PENDING, RUNNING, FAILED]"

fun item_id :: "item \<Rightarrow> string option" where
  "item_id None = None"
| "item_id (Some (jid, md, cb)) = Some jid"

definition queue_ids :: "system \<Rightarrow> string list" where
  "queue_ids s = List.map_filter item_id (queue s)"

definition sys_inv :: "system \<Rightarrow> bool" where
  "sys_inv s \<longleftrightarrow> distinct (queue_ids s)
     \<and> (\<forall>jid \<in> set (queue_ids s). status_of s jid = Some PENDING \<and> future s jid = [])
     \<and> (\<forall>jid. status_of s jid = None \<longrightarrow> future s jid = [])"

definition job_step ::
  "JobStatus option \<Rightarrow> JobStatus list \<Rightarrow> JobStatus option \<Rightarrow> JobStatus list \<Rightarrow> bool" where
  "job_step a f a' f' \<longleftrightarrow>
     (a' = a \<and> f' = f)
   \<or> (a = None \<and> a' = Some PENDING \<and> f = [] \<and> f' = [])
   \<or> (a = Some PENDING \<and> a' = Some PENDING \<and> f = []
        \<and> (f' = [RUNNING] \<or> f' = [RUNNING, DONE] \<or> f' = [RUNNING, FAILED]))
   \<or> (a \<noteq> None \<and> (\<exists>st. f = st # f' \<and> a' = Some st))"

definition seen :: "string \<Rightarrow> system list \<Rightarrow> JobStatus list" where
  "seen jid tr = List.map_filter (\<lambda>s. status_of s jid) tr"

definition trace_inv :: "system list \<Rightarrow> string \<Rightarrow> bool" where
  "trace_inv tr jid \<longleftrightarrow>
     (case status_of (last tr) jid of None \<Rightarrow> seen jid tr = []
      | Some st \<Rightarrow> seen jid tr \<noteq> [] \<and> last (seen jid tr) = st)
   \<and> legal (remdups_adj (seen jid tr) @ future (last tr) jid)"

text \<open>
  An execution: a job is started, its arguments are rejected by the validation, the
  run ends.
\<close>

definition demo_trace :: "system list" where
  "demo_trace =
     (let s0 = init_system;
          s1 = start_job (\<lambda>k. k) ''j'' ''google-takeout'' cb_rejected s0;
          s2 = s1\<lparr>queue := [], wstate := Busy [UpdateStatus ''j'' RUNNING None None,
                 UpdateStatus ''j'' FAILED (Some ''bad folder'') None] None\<rparr>;
          s3 = s2\<lparr>sys_world := exec_op (\<lambda>k. k) (UpdateStatus ''j'' RUNNING None None) (sys_world s2),
                 wstate := Busy [UpdateStatus ''j'' FAILED (Some ''bad folder'') None] None\<rparr>;
          s4 = s3\<lparr>sys_world := exec_op (\<lambda>k. k) (UpdateStatus ''j'' FAILED (Some ''bad folder'') None) (sys_world s3),
                 wstate := Busy [] None\<rparr>;
          s5 = s4\<lparr>wstate := Idle\<rparr>
      in [s0, s1, s2, s3, s4, s5])"

text \<open>
  For the merge: the value the file gives for an option (the last section of that
  name, the last option of that key), the section the merge produces, and what the
  merge needs of a schema: section names that differ, and keys that differ within a
  section.
\<close>

definition file_value :: "cfg_section list \<Rightarrow> string \<Rightarrow> string \<Rightarrow> string option" where
  "file_value parsed nm k =
     (case map_of (rev (map (\<lambda>s. (name s, s)) parsed)) nm of
        None \<Rightarrow> None
      | Some fsect \<Rightarrow> map_of (rev (map (\<lambda>x. (key x, val x)) (options fsect))) k)"

definition merged_section :: "cfg_section list \<Rightarrow> cfg_section \<Rightarrow> cfg_section" where
  "merged_section parsed sect =
     \<lparr>name = name sect, sect_form_section = section_to_form (name sect),
      sect_hint = get_section_hint (name sect),
      options = map (\<lambda>x. x\<lparr>val := (case file_value parsed (name sect) (key x) of
                                        Some v \<Rightarrow> v | None \<Rightarrow> val x),
                              form_section := section_to_form (name sect)\<rparr>) (options sect)\<rparr>"

definition wf_schema :: "cfg_section list \<Rightarrow> bool" where
  "wf_schema schema \<longleftrightarrow>
     distinct (map name schema) \<and> list_all (\<lambda>sect. distinct (map key (options sect))) schema"

section \<open>Auxiliary definitions for the round trip of the form\<close>

text \<open>
  Lines of a file text. A line is blank when it has only whitespace; a string
  without line breaks is read back as one line. \<open>tidy\<close> is what \<open>strip\<close> leaves of the
  lines of a text at its end: the blank lines at the end are gone and the last line is
  trimmed on the right.
\<close>

definition nl :: string where "nl = [CHR 0x0A]"

definition blank :: "string \<Rightarrow> bool" where
  "blank l \<longleftrightarrow> list_all isspace l"

definition tidy :: "string list \<Rightarrow> string list" where
  "tidy ls = (case dropWhile blank (rev ls) of [] \<Rightarrow> [] | l # r \<Rightarrow> rev r @ [rstrip l])"

definition no_breaks :: "string \<Rightarrow> bool" where
  "no_breaks l \<longleftrightarrow> CHR 0x0A \<notin> set l \<and> CHR 0x0D \<notin> set l"

text \<open>
  A string with no whitespace at either end; a value as \<open>strip\<close> returns it; a key that
  \<open>ConfigParser\<close> reads back as written from a line \<open>key = value\<close>; a section name
  that it reads back from a header.
\<close>

definition clean :: "string \<Rightarrow> bool" where
  "clean s \<longleftrightarrow> s \<noteq> [] \<and> \<not> isspace (hd s) \<and> \<not> isspace (last s)"

definition stripped :: "string \<Rightarrow> bool" where
  "stripped v \<longleftrightarrow> v = [] \<or> clean v"

definition key_ok :: "string \<Rightarrow> bool" where
  "key_ok k \<longleftrightarrow> clean k \<and> hd k \<notin> set ''[#;'' \<and> CHR ''='' \<notin> set k \<and> CHR '':'' \<notin> set k"

definition name_ok :: "string \<Rightarrow> bool" where
  "name_ok nm \<longleftrightarrow> nm \<noteq> [] \<and> nm \<noteq> ''DEFAULT''"

text \<open>
  The state of the reader: its sections with the value lines joined, the value
  \<open>read\<close> returns from a final state, the state after a header and the lines of the
  options \<open>kvs\<close>, and the states between two sections of a file without faults.
\<close>

definition joined :: "reader \<Rightarrow> (string \<times> (string \<times> string) list) list" where
  "joined r = map (\<lambda>(n, d). (n, join_values d)) (r_sections r)"

definition outcome :: "cp_error + reader \<Rightarrow> cp_error + ini" where
  "outcome x =
     (case x of
        Inl e \<Rightarrow> Inl e
      | Inr r \<Rightarrow>
          if parse_errors r then Inl ParsingError
          else Inr \<lparr>ini_defaults = join_values (r_defaults r), ini_sections = joined r\<rparr>)"

definition at_section :: "reader \<Rightarrow> string \<Rightarrow> (string \<times> string) list \<Rightarrow> reader" where
  "at_section base nm kvs =
     base\<lparr>r_sections := r_sections base @ [(nm, map (\<lambda>(k, v). (k, [v])) kvs)],
          sectname := Some nm,
          optname := (if kvs = [] then None else Some (fst (last kvs))),
          elements_added := rev (map (\<lambda>(k, v). (nm, Some k)) kvs) @ (nm, None) # elements_added base,
          indent_level := 0\<rparr>"

definition good :: "reader \<Rightarrow> bool" where
  "good r \<longleftrightarrow> fst ` set (elements_added r) \<subseteq> fst ` set (r_sections r)
     \<and> r_defaults r = [] \<and> \<not> parse_errors r"

text \<open>
  The text \<open>build_ini_from_form\<close> writes, as lines: the header comment, a blank line,
  and for every section its header, its \<open>key = value\<close> lines and a blank line.
\<close>

definition pairs_ok :: "(string \<times> string) list \<Rightarrow> bool" where
  "pairs_ok kvs \<longleftrightarrow> distinct (map fst kvs) \<and> list_all (\<lambda>(k, v). key_ok k \<and> stripped v) kvs"

definition section_lines :: "(string \<times> (string \<times> string) list) \<Rightarrow> string list" where
  "section_lines s = (''['' @ fst s @ '']'') # map (\<lambda>(k, v). k @ '' = '' @ v) (snd s) @ [[]]"

definition sections_ok :: "(string \<times> (string \<times> string) list) list \<Rightarrow> bool" where
  "sections_ok ss \<longleftrightarrow> distinct (map fst ss) \<and> list_all (\<lambda>(nm, kvs). name_ok nm \<and> pairs_ok kvs) ss"

definition file_text_lines :: "(string \<times> (string \<times> string) list) list \<Rightarrow> string list" where
  "file_text_lines ss = [''# Config.ini File'', []] @ concat (map section_lines ss)"

definition lines_ok :: "(string \<times> (string \<times> string) list) list \<Rightarrow> bool" where
  "lines_ok ss \<longleftrightarrow>
     list_all (\<lambda>(nm, kvs). no_breaks nm \<and> list_all (\<lambda>(k, v). no_breaks k \<and> no_breaks v) kvs) ss"

text \<open>
  The form payload. \<open>form_value\<close> is the look-up \<open>vals.get(key, "")\<close> of
  \<open>build_ini_from_form\<close> in the dictionaries it collects; \<open>decode_field\<close> is what one
  field of the payload contributes; \<open>submitted\<close> is the value the payload gives under the
  field name of a section and a key, \<open>v||section||key\<close> with the section encoded.
  \<open>with_values f\<close> is a structure with the value of every option replaced by \<open>f\<close> of
  its section name and key; \<open>parsed_section\<close> is one section as \<open>parse_config\<close>
  builds it.
\<close>

definition form_value :: "(string \<times> string) list \<Rightarrow> string \<Rightarrow> string \<Rightarrow> string" where
  "form_value form_data nm k =
     (let by_section = foldl collect_field [] form_data;
          value_by_section_key = map (\<lambda>(section, pairs). (section, dict_of pairs)) by_section;
          vals = (case map_of value_by_section_key nm of None \<Rightarrow> [] | Some d \<Rightarrow> d)
      in (case map_of vals k of None \<Rightarrow> [] | Some x \<Rightarrow> x))"

definition schema_pairs ::
  "(string \<Rightarrow> string \<Rightarrow> string) \<Rightarrow> cfg_section list \<Rightarrow> (string \<times> (string \<times> string) list) list" where
  "schema_pairs g schema =
     map (\<lambda>sect. (name sect, map (\<lambda>x. (key x, g (name sect) (key x))) (options sect))) schema"

definition decode_field :: "string \<times> string \<Rightarrow> (string \<times> string \<times> string) option" where
  "decode_field item =
     (case item of (form_key, value) \<Rightarrow>
        if \<not> prefix (''v'' @ FORM_SEP) form_key then None
        else (case split_once FORM_SEP (drop (length (''v'' @ FORM_SEP)) form_key) of
                None \<Rightarrow> None
              | Some (fsect, k) \<Rightarrow> Some (form_to_section fsect, k, strip value)))"

definition pairs_for :: "string \<Rightarrow> (string \<times> string) list \<Rightarrow> (string \<times> string) list" where
  "pairs_for s form_data =
     map (\<lambda>(s', k, v). (k, v)) (filter (\<lambda>(s', k, v). s' = s) (List.map_filter decode_field form_data))"

definition with_values :: "(string \<Rightarrow> string \<Rightarrow> string) \<Rightarrow> cfg_section list \<Rightarrow> cfg_section list" where
  "with_values f schema =
     map (\<lambda>sect. sect\<lparr>options := map (\<lambda>x. x\<lparr>val := f (name sect) (key x)\<rparr>) (options sect)\<rparr>) schema"

definition submitted :: "(string \<times> string) list \<Rightarrow> string \<Rightarrow> string \<Rightarrow> string" where
  "submitted form_data nm k =
     (case map_of form_data (form_field_name (section_to_form nm) k) of Some v \<Rightarrow> v | None \<Rightarrow> [])"

definition parsed_section :: "string \<times> (string \<times> string) list \<Rightarrow> cfg_section" where
  "parsed_section s =
     (case s of (section, d) \<Rightarrow>
        \<lparr>name = section, sect_form_section = section_to_form section,
         sect_hint = get_section_hint section,
         options = map (\<lambda>(k, raw_value).
                          \<lparr>key = k, val = strip_inline_comment raw_value,
                           is_password = is_password_key k,
                           form_section = section_to_form section,
                           hint = get_option_hint section k\<rparr>) d\<rparr>)"

text \<open>
  What the round trip needs of the registry: names and keys that the file format and
  the field names give back, and the derived fields as \<open>_default_sections_structure\<close>
  computes them.
\<close>

definition registry_ok :: "cfg_section list \<Rightarrow> bool" where
  "registry_ok schema \<longleftrightarrow>
     list_all (\<lambda>sect. name_ok (name sect) \<and> no_breaks (name sect)
                 \<and> CHR ''|'' \<notin> set (name sect) \<and> CHR ''_'' \<notin> set (name sect)
                 \<and> list_all (\<lambda>x. key_ok (key x) \<and> no_breaks (key x)) (options sect)) schema"

definition normal_schema :: "cfg_section list \<Rightarrow> bool" where
  "normal_schema schema \<longleftrightarrow>
     list_all (\<lambda>sect. sect_form_section sect = section_to_form (name sect)
                 \<and> sect_hint sect = get_section_hint (name sect)
                 \<and> list_all (\<lambda>x. form_section x = section_to_form (name sect)) (options sect)) schema"

text \<open>
  The payload with a field for every option of the registry, its value given by
  \<open>f\<close>; three choices of values: one with a \<open>#\<close> in the album, one with a line
  break in the time zone, one with spaces around the album; and the last payload with
  one more field, whose name has the section not encoded and decodes to the album of
  Apple Photos too, with the values that payload then writes.
\<close>

definition registry_form :: "(string \<Rightarrow> string \<Rightarrow> string) \<Rightarrow> (string \<times> string) list" where
  "registry_form f =
     concat (map (\<lambda>sect. map (\<lambda>x. (form_field_name (sect_form_section sect) (key x),
                                       f (name sect) (key x))) (options sect))
               default_sections_structure)"

definition hash_values :: "string \<Rightarrow> string \<Rightarrow> string" where
  "hash_values nm k = (if k = ''album'' then ''a#b'' else [])"

definition break_values :: "string \<Rightarrow> string \<Rightarrow> string" where
  "break_values nm k =
     (if nm = ''TimeZone'' then [CHR ''a'', CHR 0x0A, CHR ''b'']
      else if k = ''album'' then ''Summer 2024'' else [])"

definition plain_values :: "string \<Rightarrow> string \<Rightarrow> string" where
  "plain_values nm k =
     (if k = ''album'' then ''  Summer 2024 '' else if k = ''timezone'' then ''Europe/London'' else [])"

definition alias_form :: "(string \<times> string) list" where
  "alias_form = registry_form plain_values @ [(''v||Apple Photos||album'', ''x'')]"

definition alias_values :: "string \<Rightarrow> string \<Rightarrow> string" where
  "alias_values nm k =
     (if nm = ''Apple Photos'' \<and> k = ''album'' then ''x'' else strip (plain_values nm k))"

section \<open>Properties of the job store\<close>

lemma jobs_append_job_log:
  "jobs (append_job_log now h line s) jid =
     (if h = jid
      then map_option (\<lambda>j. j\<lparr>log_lines := log_lines j @ [line], updated_at := now\<rparr>) (jobs s jid)
      else jobs s jid)"
  by (simp add: append_job_log_def Let_def split: option.splits)

lemma jobs_update_job_status:
  "jobs (update_job_status now h st err summ s) jid =
     (if h = jid
      then map_option (\<lambda>j. j\<lparr>status := st, updated_at := now,
             error := (case err of None \<Rightarrow> error j | Some e \<Rightarrow> Some e),
             result_summary := (case summ of None \<Rightarrow> result_summary j | Some r \<Rightarrow> Some r)\<rparr>)
           (jobs s jid)
      else jobs s jid)"
  by (simp add: update_job_status_def Let_def split: option.splits)

lemma dom_create_job: "dom (jobs (snd (create_job u now md s))) = insert u (dom (jobs s))"
  by (simp add: create_job_def Let_def)

lemma job_order_create_job: "job_order (snd (create_job u now md s)) = job_order s @ [u]"
  by (simp add: create_job_def Let_def)

lemma job_order_created: "job_order (created n) = map (\<lambda>k. replicate (Suc k) CHR ''j'') [0..<n]"
  by (induction n) (simp_all add: empty_store_def job_order_create_job)

lemma dom_created: "dom (jobs (created n)) = set (job_order (created n))"
  by (induction n) (simp_all add: empty_store_def dom_create_job job_order_create_job)

lemma created_1:
  "created 1 =
     \<lparr>jobs = [''j'' \<mapsto> \<lparr>job_id = ''j'', mode = ''google-takeout'', status = PENDING,
                        created_at = 0, updated_at = 0, log_lines = [], error = None,
                        result_summary = None\<rparr>],
      job_order = [''j'']\<rparr>"
  by (simp add: create_job_def empty_store_def Let_def)

text \<open>
  C9: for a job in the store, \<open>update_job_status\<close> sets the status and refreshes
  \<open>updated_at\<close>; an absent \<open>error\<close> keeps the recorded error, an absent
  \<open>result_summary\<close> keeps the recorded summary; \<open>id\<close>, \<open>mode\<close>, \<open>created_at\<close> and
  \<open>log_lines\<close> never change.
\<close>

theorem update_job_status_frame:
  assumes "jobs s jid = Some j"
  shows "\<exists>j'. jobs (update_job_status now jid st err summ s) jid = Some j'
          \<and> status j' = st \<and> updated_at j' = now
          \<and> (err = None \<longrightarrow> error j' = error j)
          \<and> (summ = None \<longrightarrow> result_summary j' = result_summary j)
          \<and> job_id j' = job_id j \<and> mode j' = mode j
          \<and> created_at j' = created_at j \<and> log_lines j' = log_lines j"
  using assms by (simp add: jobs_update_job_status)

theorem update_job_status_frame_witness:
  "jobs (update_job_status 1 ''j'' FAILED (Some ''disk full'') None (created 1)) ''j'' =
     Some \<lparr>job_id = ''j'', mode = ''google-takeout'', status = FAILED, created_at = 0,
           updated_at = 1, log_lines = [], error = Some ''disk full'', result_summary = None\<rparr>
   \<and> (\<exists>j'. jobs (update_job_status 2 ''j'' RUNNING None None
                  (update_job_status 1 ''j'' FAILED (Some ''disk full'') None (created 1))) ''j'' = Some j'
          \<and> status j' = RUNNING \<and> updated_at j' = 2 \<and> error j' = Some ''disk full''
          \<and> result_summary j' = None \<and> job_id j' = ''j'' \<and> mode j' = ''google-takeout''
          \<and> created_at j' = 0 \<and> log_lines j' = [])"
proof -
  have h: "jobs (update_job_status 1 ''j'' FAILED (Some ''disk full'') None (created 1)) ''j'' =
     Some \<lparr>job_id = ''j'', mode = ''google-takeout'', status = FAILED, created_at = 0,
           updated_at = 1, log_lines = [], error = Some ''disk full'', result_summary = None\<rparr>"
    unfolding created_1 by (simp add: jobs_update_job_status)
  show ?thesis
    using h update_job_status_frame [OF h, of 2 RUNNING None None] by simp
qed

text \<open>
  C8: for a job id that is not in the store, \<open>update_job_status\<close> and
  \<open>append_job_log\<close> return the store as it was, \<open>get_job\<close> returns \<open>None\<close>, and the
  routes answer with the 404 error "Job not found". None of the functions has an
  error result of its own.
\<close>

theorem unknown_job_id:
  assumes "jobs s jid = None"
  shows "update_job_status now jid st err summ s = s
       \<and> append_job_log now jid line s = s
       \<and> get_job jid s = None
       \<and> get_job_api isoformat jid s = Inl (HTTPException 404 ''Job not found'')
       \<and> get_job_logs jid s = Inl (HTTPException 404 ''Job not found'')"
  using assms
  by (simp add: update_job_status_def append_job_log_def get_job_def get_job_api_def
      get_job_logs_def)

theorem unknown_job_id_witness:
  "jobs (created 1) ''zz'' = None
   \<and> update_job_status 5 ''zz'' DONE (Some ''e'') None (created 1) = created 1
   \<and> append_job_log 5 ''zz'' ''line'' (created 1) = created 1
   \<and> get_job ''zz'' (created 1) = None
   \<and> get_job_api (\<lambda>t. ''2026'') ''zz'' (created 1) = Inl (HTTPException 404 ''Job not found'')
   \<and> get_job_logs ''zz'' (created 1) = Inl (HTTPException 404 ''Job not found'')"
proof -
  have h: "jobs (created 1) ''zz'' = None"
    unfolding created_1 by simp
  show ?thesis
    using h unknown_job_id [OF h, of 5 DONE "Some ''e''" None "''line''" "\<lambda>t. ''2026''"] by simp
qed

subsection \<open>Listing\<close>

lemma map_filter_append:
  "List.map_filter f (xs @ ys) = List.map_filter f xs @ List.map_filter f ys"
  by (simp add: List.map_filter_def)

lemma length_map_filter_le: "length (List.map_filter f xs) \<le> length xs"
  by (simp add: List.map_filter_def)

lemma map_filter_total: "set xs \<subseteq> dom f \<Longrightarrow> List.map_filter f xs = map (\<lambda>x. the (f x)) xs"
  by (induction xs) (auto simp: List.map_filter_def)

lemma slice_from_suffix: "suffix (slice_from xs i) xs"
  by (simp add: slice_from_def suffix_drop)

lemma slice_from_last: "0 < n \<Longrightarrow> rev (slice_from xs (- n)) = take (nat n) (rev xs)"
proof -
  assume "0 < n"
  then have "nat (int (length xs) - n) = length xs - nat n" by arith
  then show ?thesis using \<open>0 < n\<close> by (simp add: slice_from_def take_rev)
qed

lemma list_jobs_prefix: "prefix (list_jobs (Some n) s) (list_jobs (Some 0) s)"
proof -
  obtain zs where "job_order s = zs @ slice_from (job_order s) (- n)"
    using slice_from_suffix[of "job_order s" "- n"] by (auto simp: suffix_def)
  then have "rev (job_order s) = rev (slice_from (job_order s) (- n)) @ rev zs"
    by (metis rev_append)
  then show ?thesis
    by (auto simp: list_jobs_def Let_def map_filter_append)
qed

lemma list_jobs_length: "0 < n \<Longrightarrow> length (list_jobs (Some n) s) \<le> nat n"
proof -
  assume "0 < n"
  then have "length (slice_from (job_order s) (- n)) \<le> nat n"
    by (auto simp: slice_from_def)
  then show ?thesis using \<open>0 < n\<close>
    by (auto simp: list_jobs_def Let_def intro: order_trans[OF length_map_filter_le])
qed

lemma list_jobs_take:
  assumes "set (job_order s) \<subseteq> dom (jobs s)" "0 < n"
  shows "list_jobs (Some n) s = take (nat n) (list_jobs (Some 0) s)"
proof -
  have 1: "set (rev (job_order s)) \<subseteq> dom (jobs s)" using assms by simp
  have 2: "set (take (nat n) (rev (job_order s))) \<subseteq> dom (jobs s)" using 1
    by (meson set_take_subset subset_trans)
  show ?thesis using assms(2)
    by (simp add: list_jobs_def Let_def slice_from_last map_filter_total[OF 1]
        map_filter_total[OF 2] take_map)
qed

lemma length_list_jobs:
  assumes "set (job_order s) \<subseteq> dom (jobs s)"
  shows "length (list_jobs (Some n) s) =
     (if 0 < n then min (nat n) (length (job_order s)) else length (job_order s) - nat (- n))"
proof -
  let ?o = "if n \<noteq> 0 then slice_from (job_order s) (- n) else job_order s"
  have "set (rev ?o) \<subseteq> dom (jobs s)"
    using assms set_mono_suffix[OF slice_from_suffix[of "job_order s" "- n"]] by auto
  then have "length (list_jobs (Some n) s) = length ?o"
    by (simp add: list_jobs_def Let_def map_filter_total del: set_rev)
  moreover have "length ?o =
      (if 0 < n then min (nat n) (length (job_order s)) else length (job_order s) - nat (- n))"
    by (auto simp: slice_from_def)
  ultimately show ?thesis by simp
qed

text \<open>
  C4, the claim as stated fails twice. With two jobs in the store, \<open>limit = -1\<close>
  lists one job, not both: the slice \<open>_job_order[1:]\<close> drops the oldest. With 51 jobs
  in the store, a call without a limit lists 50 of them: the default is 50.
\<close>

theorem list_jobs_all_counterexample:
  "length (list_jobs (Some (- 1)) (created 2)) = 1
   \<and> length (list_jobs (Some 0) (created 2)) = 2
   \<and> length (list_jobs None (created 51)) = 50
   \<and> length (list_jobs (Some 0) (created 51)) = 51"
proof -
  have d: "set (job_order (created n)) \<subseteq> dom (jobs (created n))" for n
    by (simp add: dom_created)
  have n: "list_jobs None s = list_jobs (Some 50) s" for s
    by (simp add: list_jobs_def)
  show ?thesis
    by (simp add: n length_list_jobs[OF d] job_order_created)
qed

text \<open>
  C4 as amended: \<open>limit = 0\<close> lists all jobs of the creation order, most recently
  created first; a call without a limit is the call with \<open>limit = 50\<close>; for
  \<open>limit > 0\<close> at most \<open>limit\<close> jobs are listed; for every \<open>limit\<close> (of either sign) the
  list is a prefix of the list for \<open>limit = 0\<close>; and when every created id is in the
  store, \<open>limit > 0\<close> lists exactly the first \<open>limit\<close> of them.
\<close>

theorem list_jobs_limit:
  "list_jobs (Some 0) s = List.map_filter (jobs s) (rev (job_order s))
   \<and> list_jobs None s = list_jobs (Some 50) s
   \<and> (0 < n \<longrightarrow> length (list_jobs (Some n) s) \<le> nat n)
   \<and> prefix (list_jobs (Some n) s) (list_jobs (Some 0) s)
   \<and> (0 < n \<longrightarrow> set (job_order s) \<subseteq> dom (jobs s) \<longrightarrow>
        list_jobs (Some n) s = take (nat n) (list_jobs (Some 0) s))"
  using list_jobs_prefix list_jobs_length list_jobs_take
  by (simp add: list_jobs_def)

theorem list_jobs_limit_witness:
  "0 < (1::int) \<and> set (job_order (created 2)) \<subseteq> dom (jobs (created 2))
   \<and> list_jobs (Some 1) (created 2) = take 1 (list_jobs (Some 0) (created 2))
   \<and> length (list_jobs (Some 1) (created 2)) \<le> 1
   \<and> list_jobs (Some 1) (created 2) =
        [\<lparr>job_id = ''jj'', mode = ''google-takeout'', status = PENDING, created_at = 1,
          updated_at = 1, log_lines = [], error = None, result_summary = None\<rparr>]"
proof -
  have d: "set (job_order (created 2)) \<subseteq> dom (jobs (created 2))"
    by (simp add: dom_created)
  have e: "list_jobs (Some 1) (created 2) =
        [\<lparr>job_id = ''jj'', mode = ''google-takeout'', status = PENDING, created_at = 1,
          updated_at = 1, log_lines = [], error = None, result_summary = None\<rparr>]"
    by (simp add: list_jobs_def slice_from_def numeral_2_eq_2 create_job_def empty_store_def
        List.map_filter_def Let_def)
  show ?thesis using list_jobs_limit[of "created 2" 1] d e by simp
qed

section \<open>Properties of a run\<close>

lemma exec_ops_append: "exec_ops clk (xs @ ys) w = exec_ops clk ys (exec_ops clk xs w)"
  by (induction xs arbitrary: w) auto

lemma history_exec_ops: "history (exec_ops clk xs w) = history w @ xs"
  by (induction xs arbitrary: w) (auto simp: exec_op_def)

lemma emit_all_logs:
  "jobs (the_store w) jid = Some j \<Longrightarrow>
   \<exists>j' ls. jobs (the_store (emit_all clk hs r w)) jid = Some j' \<and> log_lines j' = log_lines j @ ls"
proof (induction hs arbitrary: w j)
  case Nil
  then show ?case by simp
next
  case (Cons h hs)
  let ?w = "store_call clk (\<lambda>now. append_job_log now h (format_record r)) w"
  from Cons.prems obtain j1 l1
    where 1: "jobs (the_store ?w) jid = Some j1" "log_lines j1 = log_lines j @ l1"
    by (cases "h = jid") (simp_all add: store_call_def jobs_append_job_log)
  from Cons.IH[OF 1(1)] obtain j' ls
    where 2: "jobs (the_store (emit_all clk hs r ?w)) jid = Some j'"
      "log_lines j' = log_lines j1 @ ls" by blast
  show ?case using 1 2 by simp
qed

lemma exec_op_logs:
  assumes "jobs (the_store w) jid = Some j"
  shows "\<exists>j' ls. jobs (the_store (exec_op clk x w)) jid = Some j' \<and> log_lines j' = log_lines j @ ls"
proof (cases x)
  case (Emit r)
  then show ?thesis using emit_all_logs[OF assms] by (simp add: exec_op_def)
qed (use assms in \<open>simp_all add: exec_op_def store_call_def jobs_append_job_log
      jobs_update_job_status\<close>)

lemma exec_ops_logs:
  "jobs (the_store w) jid = Some j \<Longrightarrow>
   \<exists>j' ls. jobs (the_store (exec_ops clk xs w)) jid = Some j' \<and> log_lines j' = log_lines j @ ls"
proof (induction xs arbitrary: w j)
  case Nil
  then show ?case by simp
next
  case (Cons x xs)
  from exec_op_logs[OF Cons.prems] obtain j1 l1 where
    1: "jobs (the_store (exec_op clk x w)) jid = Some j1" "log_lines j1 = log_lines j @ l1"
    by blast
  from Cons.IH[OF 1(1)] 1(2) show ?case by fastforce
qed

lemma run_mode_ops_rejected:
  assumes "imports_raise cb = None" "checkArgs_raise cb = Some e" "is_Exception e"
  shows "run_mode_ops cb jid md =
     (if (\<exists>m. e = ValueError m)
      then [UpdateStatus jid RUNNING None None, UpdateStatus jid FAILED (Some (str_of e)) None]
      else [UpdateStatus jid RUNNING None None, AppendLog jid (''Error: '' @ str_of e),
            UpdateStatus jid FAILED (Some (str_of e)) None], None)"
  using assms by (cases e) (simp_all add: run_mode_ops_def try_body_def)

lemma run_mode_ops_engine_fault:
  assumes "imports_raise cb = None" "checkArgs_raise cb = None" "init_raise cb = None"
    "md = ''google-takeout'' \<or> md = ''automatic-migration''"
    "engine_raise cb = Some e" "is_Exception e"
  shows "run_mode_ops cb jid md =
     (UpdateStatus jid RUNNING None None #
        (AddHandler jid # Invoke md # map Emit (engine_records cb) @ [RemoveHandler jid]) @
        [AppendLog jid (''Error: '' @ str_of e), UpdateStatus jid FAILED (Some (str_of e)) None],
      None)"
  using assms by (auto simp add: run_mode_ops_def try_body_def engine_block_def)

text \<open>
  C6: when \<open>checkArgs\<close> raises an exception \<open>e\<close> (the \<open>ValueError\<close> of
  \<open>MockParser.error\<close>, or any other \<open>Exception\<close>) for a job in the store, \<open>run_mode\<close>
  returns with the job \<open>failed\<close> and its error the message of \<open>e\<close>; among the effects
  of the run there is no call of the engine and no \<open>addHandler\<close>.
\<close>

theorem validation_fault:
  assumes "imports_raise cb = None" and "checkArgs_raise cb = Some e" and "is_Exception e"
    and "jobs (the_store w) jid = Some j"
  shows "\<exists>w' j' xs. run_mode clk cb jid md w = (None, w')
           \<and> jobs (the_store w') jid = Some j'
           \<and> status j' = FAILED \<and> error j' = Some (str_of e)
           \<and> history w' = history w @ xs
           \<and> (\<forall>x \<in> set xs. \<not> is_Invoke x \<and> \<not> is_AddHandler x)
           \<and> handlers w' = handlers w"
  using assms(4) unfolding run_mode_def run_mode_ops_rejected[OF assms(1-3)]
  by (simp add: exec_op_def store_call_def jobs_update_job_status jobs_append_job_log)

theorem validation_fault_witness:
  "imports_raise cb_rejected = None
   \<and> checkArgs_raise cb_rejected = Some (ValueError ''bad folder'')
   \<and> is_Exception (ValueError ''bad folder'')
   \<and> jobs (the_store one_job_world) ''j'' \<noteq> None
   \<and> (\<exists>w' j' xs. run_mode (\<lambda>k. k) cb_rejected ''j'' ''google-takeout'' one_job_world = (None, w')
           \<and> jobs (the_store w') ''j'' = Some j'
           \<and> status j' = FAILED \<and> error j' = Some ''bad folder''
           \<and> history w' = history one_job_world @ xs
           \<and> (\<forall>x \<in> set xs. \<not> is_Invoke x \<and> \<not> is_AddHandler x)
           \<and> handlers w' = handlers one_job_world)"
proof -
  have 1: "imports_raise cb_rejected = None"
    and 2: "checkArgs_raise cb_rejected = Some (ValueError ''bad folder'')"
    by (simp_all add: cb_rejected_def)
  have 3: "is_Exception (ValueError ''bad folder'')" by simp
  have 4: "jobs (the_store one_job_world) ''j'' =
      Some \<lparr>job_id = ''j'', mode = ''google-takeout'', status = PENDING, created_at = 0,
            updated_at = 0, log_lines = [], error = None, result_summary = None\<rparr>"
    unfolding one_job_world_def created_1 by simp
  show ?thesis
    using 1 2 3 4 validation_fault [OF 1 2 3 4, of "\<lambda>k. k" "''google-takeout''"] by simp
qed

lemma created_2:
  "created 2 =
     \<lparr>jobs = [''j'' \<mapsto> \<lparr>job_id = ''j'', mode = ''google-takeout'', status = PENDING,
                        created_at = 0, updated_at = 0, log_lines = [], error = None,
                        result_summary = None\<rparr>,
              ''jj'' \<mapsto> \<lparr>job_id = ''jj'', mode = ''google-takeout'', status = PENDING,
                        created_at = 1, updated_at = 1, log_lines = [], error = None,
                        result_summary = None\<rparr>],
      job_order = [''j'', ''jj'']\<rparr>"
  by (simp add: numeral_2_eq_2 create_job_def empty_store_def Let_def)

lemma run_mode_ops_fatal:
  "run_mode_ops cb jid md = (xs, Some e) \<Longrightarrow> \<not> is_Exception e"
  by (auto simp add: run_mode_ops_def split: prod.splits option.splits if_splits)

lemma run_mode_eq:
  "run_mode clk cb jid md w = (snd (run_mode_ops cb jid md), exec_ops clk (fst (run_mode_ops cb jid md)) w)"
  by (simp add: run_mode_def split: prod.splits)

lemma worker_one:
  "worker clk [Some (jid, md, cb)] w =
     (case snd (run_mode_ops cb jid md) of None \<Rightarrow> Waiting | Some e \<Rightarrow> Died e,
      exec_ops clk (fst (run_mode_ops cb jid md)) w)"
proof (cases "run_mode_ops cb jid md")
  case (Pair xs r)
  show ?thesis
  proof (cases r)
    case None
    then show ?thesis using Pair by (simp add: run_mode_def)
  next
    case (Some e)
    then show ?thesis using Pair run_mode_ops_fatal[of cb jid md xs e] by (simp add: run_mode_def)
  qed
qed

lemma run_mode_ops_success:
  assumes "imports_raise cb = None" "checkArgs_raise cb = None" "init_raise cb = None"
    "md = ''google-takeout'' \<or> md = ''automatic-migration''"
    "engine_raise cb = None"
  shows "run_mode_ops cb jid md =
     (UpdateStatus jid RUNNING None None #
        (AddHandler jid # Invoke md # map Emit (engine_records cb) @ [RemoveHandler jid]) @
        [UpdateStatus jid DONE None (Some ''Completed successfully'')],
      None)"
  using assms by (auto simp add: run_mode_ops_def try_body_def engine_block_def)

lemma exec_ops_success:
  assumes "imports_raise cb = None" "checkArgs_raise cb = None" "init_raise cb = None"
    "md = ''google-takeout'' \<or> md = ''automatic-migration''"
    "engine_raise cb = None"
    and "jobs (the_store w) jid = Some j"
  shows "snd (run_mode_ops cb jid md) = None
       \<and> (\<exists>j'. jobs (the_store (exec_ops clk (fst (run_mode_ops cb jid md)) w)) jid = Some j'
            \<and> status j' = DONE \<and> result_summary j' = Some ''Completed successfully'')"
proof -
  let ?pre = "UpdateStatus jid RUNNING None None #
        (AddHandler jid # Invoke md # map Emit (engine_records cb) @ [RemoveHandler jid])"
  let ?w1 = "exec_ops clk ?pre w"
  obtain j1 ls where 1: "jobs (the_store ?w1) jid = Some j1"
    using exec_ops_logs[OF assms(6)] by blast
  have 2: "exec_ops clk (fst (run_mode_ops cb jid md)) w =
      exec_op clk (UpdateStatus jid DONE None (Some ''Completed successfully'')) ?w1"
    unfolding run_mode_ops_success[OF assms(1-5)]
    by (simp add: exec_ops_append)
  have 3: "\<exists>j'. jobs (the_store (exec_op clk (UpdateStatus jid DONE None
                 (Some ''Completed successfully'')) ?w1)) jid = Some j'
            \<and> status j' = DONE \<and> result_summary j' = Some ''Completed successfully''"
    using 1 by (simp add: exec_op_def store_call_def jobs_update_job_status)
  have 4: "snd (run_mode_ops cb jid md) = None"
    unfolding run_mode_ops_success[OF assms(1-5)] by simp
  show ?thesis unfolding 2 using 3 4 by blast
qed

text \<open>
  C1, the claim as stated fails for a fault that is not an \<open>Exception\<close>. Both
  handlers read \<open>except Exception\<close>. When the engine ends the run of job \<open>j\<close> by
  \<open>SystemExit\<close>, it leaves \<open>run_mode\<close>: the job stays \<open>running\<close> with no error and no
  \<open>Error:\<close> line in its log, the worker thread dies, and the next job \<open>jj\<close> of the
  queue stays \<open>pending\<close>.
\<close>

theorem engine_exit_counterexample:
  "engine_raise cb_exit = Some (BaseException ''aborted'')
   \<and> map_option status (jobs (the_store two_job_world) ''j'') = Some PENDING
   \<and> fst (run_mode (\<lambda>k. k) cb_exit ''j'' ''google-takeout'' two_job_world)
       = Some (BaseException ''aborted'')
   \<and> map_option status (jobs (the_store (snd
         (run_mode (\<lambda>k. k) cb_exit ''j'' ''google-takeout'' two_job_world))) ''j'') = Some RUNNING
   \<and> map_option error (jobs (the_store (snd
         (run_mode (\<lambda>k. k) cb_exit ''j'' ''google-takeout'' two_job_world))) ''j'') = Some None
   \<and> map_option log_lines (jobs (the_store (snd
         (run_mode (\<lambda>k. k) cb_exit ''j'' ''google-takeout'' two_job_world))) ''j'') = Some []
   \<and> fst (worker (\<lambda>k. k) [Some (''j'', ''google-takeout'', cb_exit),
                           Some (''jj'', ''google-takeout'', cb_ok)] two_job_world)
       = Died (BaseException ''aborted'')
   \<and> map_option status (jobs (the_store (snd
         (worker (\<lambda>k. k) [Some (''j'', ''google-takeout'', cb_exit),
                           Some (''jj'', ''google-takeout'', cb_ok)] two_job_world))) ''jj'')
       = Some PENDING"
proof -
  have ops: "run_mode_ops cb_exit ''j'' ''google-takeout'' =
      ([UpdateStatus ''j'' RUNNING None None, AddHandler ''j'', Invoke ''google-takeout'',
        RemoveHandler ''j''], Some (BaseException ''aborted''))"
    by (simp add: run_mode_ops_def try_body_def engine_block_def cb_exit_def)
  have rm: "run_mode (\<lambda>k. k) cb_exit ''j'' ''google-takeout'' two_job_world =
      (Some (BaseException ''aborted''),
       \<lparr>the_store = update_job_status 0 ''j'' RUNNING None None (created 2),
        handlers = [], ticks = 1,
        history = [UpdateStatus ''j'' RUNNING None None, AddHandler ''j'',
                   Invoke ''google-takeout'', RemoveHandler ''j'']\<rparr>)"
    unfolding run_mode_def ops
    by (simp add: exec_op_def store_call_def two_job_world_def init_world_def)
  have w: "worker (\<lambda>k. k) [Some (''j'', ''google-takeout'', cb_exit),
                           Some (''jj'', ''google-takeout'', cb_ok)] two_job_world =
      (Died (BaseException ''aborted''),
       \<lparr>the_store = update_job_status 0 ''j'' RUNNING None None (created 2),
        handlers = [], ticks = 1,
        history = [UpdateStatus ''j'' RUNNING None None, AddHandler ''j'',
                   Invoke ''google-takeout'', RemoveHandler ''j'']\<rparr>)"
    by (simp add: rm)
  show ?thesis
    unfolding rm w
    by (simp add: jobs_update_job_status created_2 cb_exit_def two_job_world_def init_world_def)
qed

text \<open>
  C1 as amended: when the engine is invoked for a job in the store and raises an
  \<open>Exception\<close> with message \<open>m\<close>, \<open>run_mode\<close> returns; the job's log is its old log,
  then what was captured, then the line \<open>Error: m\<close> last; the job is \<open>failed\<close> with
  error \<open>m\<close>. The worker goes on with the rest of the queue from the state the run
  left: whatever the next item of the queue is, the worker
  runs \<open>run_mode\<close> for it from the state the failed run left and executes all its
  effects, and then takes the rest of the queue; and when the next item is a job of
  the store whose run meets no fault, the worker leaves that job \<open>done\<close> with its
  result summary and waits for the next item.
\<close>

theorem execution_fault:
  assumes "imports_raise cb = None" and "checkArgs_raise cb = None" and "init_raise cb = None"
    and "md = ''google-takeout'' \<or> md = ''automatic-migration''"
    and "engine_raise cb = Some e" and "is_Exception e"
    and "jobs (the_store w) jid = Some j"
  shows "\<exists>w' j' ls. run_mode clk cb jid md w = (None, w')
           \<and> jobs (the_store w') jid = Some j'
           \<and> log_lines j' = log_lines j @ ls @ [''Error: '' @ str_of e]
           \<and> status j' = FAILED \<and> error j' = Some (str_of e)
           \<and> (\<forall>q. worker clk (Some (jid, md, cb) # q) w = worker clk q w')
           \<and> (\<forall>jid2 md2 cb2. \<exists>r2 w2. run_mode clk cb2 jid2 md2 w' = (r2, w2)
                 \<and> history w2 = history w' @ fst (run_mode_ops cb2 jid2 md2)
                 \<and> worker clk [Some (jid, md, cb), Some (jid2, md2, cb2)] w = (worker_end_of r2, w2)
                 \<and> (\<forall>q. r2 = None \<longrightarrow>
                       worker clk (Some (jid, md, cb) # Some (jid2, md2, cb2) # q) w = worker clk q w2))
           \<and> (\<forall>jid2 md2 cb2 j2.
                 jobs (the_store w) jid2 = Some j2 \<and> imports_raise cb2 = None
                 \<and> checkArgs_raise cb2 = None \<and> init_raise cb2 = None \<and> engine_raise cb2 = None
                 \<and> (md2 = ''google-takeout'' \<or> md2 = ''automatic-migration'') \<longrightarrow>
                 (\<exists>wf jf. worker clk [Some (jid, md, cb), Some (jid2, md2, cb2)] w = (Waiting, wf)
                    \<and> jobs (the_store wf) jid2 = Some jf \<and> status jf = DONE
                    \<and> result_summary jf = Some ''Completed successfully''))"
proof -
  let ?mid = "AddHandler jid # Invoke md # map Emit (engine_records cb) @ [RemoveHandler jid]"
  let ?w1 = "exec_op clk (UpdateStatus jid RUNNING None None) w"
  let ?w2 = "exec_ops clk ?mid ?w1"
  let ?w3 = "exec_ops clk [AppendLog jid (''Error: '' @ str_of e),
                UpdateStatus jid FAILED (Some (str_of e)) None] ?w2"
  have rm: "run_mode clk cb jid md w = (None, ?w3)"
    unfolding run_mode_def run_mode_ops_engine_fault[OF assms(1-6)]
    by (simp only: exec_ops.simps exec_ops_append prod.case)
  obtain j1 where 1: "jobs (the_store ?w1) jid = Some j1" "log_lines j1 = log_lines j"
    using assms(7) by (simp add: exec_op_def store_call_def jobs_update_job_status)
  obtain j2 ls where 2: "jobs (the_store ?w2) jid = Some j2" "log_lines j2 = log_lines j1 @ ls"
    using exec_ops_logs[OF 1(1)] by blast
  have 3: "\<exists>j'. jobs (the_store ?w3) jid = Some j'
            \<and> log_lines j' = log_lines j2 @ [''Error: '' @ str_of e]
            \<and> status j' = FAILED \<and> error j' = Some (str_of e)"
    using 2(1) by (simp add: exec_op_def store_call_def jobs_update_job_status jobs_append_job_log)
  have w: "worker clk (Some (jid, md, cb) # q) w = worker clk q ?w3" for q
    by (simp add: rm)
  have 4: "\<exists>r2 w2. run_mode clk cb2 jid2 md2 ?w3 = (r2, w2)
                 \<and> history w2 = history ?w3 @ fst (run_mode_ops cb2 jid2 md2)
                 \<and> worker clk [Some (jid, md, cb), Some (jid2, md2, cb2)] w = (worker_end_of r2, w2)
                 \<and> (\<forall>q. r2 = None \<longrightarrow>
                       worker clk (Some (jid, md, cb) # Some (jid2, md2, cb2) # q) w = worker clk q w2)"
    for jid2 md2 cb2
    unfolding w run_mode_eq worker_one worker_end_of_def
    by (simp add: history_exec_ops run_mode_eq)
  have 5: "\<exists>wf jf. worker clk [Some (jid, md, cb), Some (jid2, md2, cb2)] w = (Waiting, wf)
                    \<and> jobs (the_store wf) jid2 = Some jf \<and> status jf = DONE
                    \<and> result_summary jf = Some ''Completed successfully''"
    if a: "jobs (the_store w) jid2 = Some j2'" "imports_raise cb2 = None"
      "checkArgs_raise cb2 = None" "init_raise cb2 = None" "engine_raise cb2 = None"
      "md2 = ''google-takeout'' \<or> md2 = ''automatic-migration''"
    for jid2 md2 cb2 j2'
  proof -
    from exec_ops_logs[OF a(1)] rm obtain j3 where j3: "jobs (the_store ?w3) jid2 = Some j3"
      unfolding run_mode_eq by (metis prod.inject)
    from exec_ops_success[OF a(2,3,4,6,5) j3, of clk] show ?thesis
      unfolding w worker_one by auto
  qed
  have A: "\<forall>jid2 md2 cb2. \<exists>r2 w2. run_mode clk cb2 jid2 md2 ?w3 = (r2, w2)
                 \<and> history w2 = history ?w3 @ fst (run_mode_ops cb2 jid2 md2)
                 \<and> worker clk [Some (jid, md, cb), Some (jid2, md2, cb2)] w = (worker_end_of r2, w2)
                 \<and> (\<forall>q. r2 = None \<longrightarrow>
                       worker clk (Some (jid, md, cb) # Some (jid2, md2, cb2) # q) w = worker clk q w2)"
    using 4 by blast
  have B: "\<forall>jid2 md2 cb2 j2.
                 jobs (the_store w) jid2 = Some j2 \<and> imports_raise cb2 = None
                 \<and> checkArgs_raise cb2 = None \<and> init_raise cb2 = None \<and> engine_raise cb2 = None
                 \<and> (md2 = ''google-takeout'' \<or> md2 = ''automatic-migration'') \<longrightarrow>
                 (\<exists>wf jf. worker clk [Some (jid, md, cb), Some (jid2, md2, cb2)] w = (Waiting, wf)
                    \<and> jobs (the_store wf) jid2 = Some jf \<and> status jf = DONE
                    \<and> result_summary jf = Some ''Completed successfully'')"
    using 5 by blast
  from 3 obtain j' where j': "jobs (the_store ?w3) jid = Some j'"
      "log_lines j' = log_lines j2 @ [''Error: '' @ str_of e]"
      "status j' = FAILED" "error j' = Some (str_of e)" by blast
  have L: "log_lines j' = log_lines j @ ls @ [''Error: '' @ str_of e]"
    using j'(2) 1(2) 2(2) by simp
  have W: "\<forall>q. worker clk (Some (jid, md, cb) # q) w = worker clk q ?w3"
    using w by (rule allI)
  show ?thesis
    using rm j'(1) L j'(3) j'(4) W A B by blast
qed

theorem execution_fault_witness:
  "imports_raise cb_disk_full = None \<and> checkArgs_raise cb_disk_full = None
   \<and> init_raise cb_disk_full = None
   \<and> engine_raise cb_disk_full = Some (Exception ''disk full'')
   \<and> is_Exception (Exception ''disk full'')
   \<and> map_option status (jobs (the_store two_job_world) ''j'') = Some PENDING
   \<and> map_option status (jobs (the_store two_job_world) ''jj'') = Some PENDING
   \<and> imports_raise cb_ok = None \<and> checkArgs_raise cb_ok = None
   \<and> init_raise cb_ok = None \<and> engine_raise cb_ok = None
   \<and> (\<exists>w' j' ls. run_mode (\<lambda>k. k) cb_disk_full ''j'' ''google-takeout'' two_job_world = (None, w')
           \<and> jobs (the_store w') ''j'' = Some j'
           \<and> log_lines j' = ls @ [''Error: disk full'']
           \<and> status j' = FAILED \<and> error j' = Some ''disk full''
           \<and> (\<exists>r2 w2. run_mode (\<lambda>k. k) cb_ok ''jj'' ''google-takeout'' w' = (r2, w2)
                 \<and> history w2 = history w' @ fst (run_mode_ops cb_ok ''jj'' ''google-takeout'')
                 \<and> worker (\<lambda>k. k) [Some (''j'', ''google-takeout'', cb_disk_full),
                                     Some (''jj'', ''google-takeout'', cb_ok)] two_job_world
                     = (worker_end_of r2, w2))
           \<and> (\<exists>wf jf. worker (\<lambda>k. k) [Some (''j'', ''google-takeout'', cb_disk_full),
                                     Some (''jj'', ''google-takeout'', cb_ok)] two_job_world
                     = (Waiting, wf)
                 \<and> jobs (the_store wf) ''jj'' = Some jf \<and> status jf = DONE
                 \<and> result_summary jf = Some ''Completed successfully''))"
proof -
  have 1: "imports_raise cb_disk_full = None"
    and 2: "checkArgs_raise cb_disk_full = None"
    and 3: "init_raise cb_disk_full = None"
    and 5: "engine_raise cb_disk_full = Some (Exception ''disk full'')"
    by (simp_all add: cb_disk_full_def)
  have 4: "''google-takeout'' = ''google-takeout'' \<or> ''google-takeout'' = ''automatic-migration''"
    by simp
  have 6: "is_Exception (Exception ''disk full'')" by simp
  have 7: "jobs (the_store two_job_world) ''j'' =
      Some \<lparr>job_id = ''j'', mode = ''google-takeout'', status = PENDING, created_at = 0,
            updated_at = 0, log_lines = [], error = None, result_summary = None\<rparr>"
    unfolding two_job_world_def created_2 by simp
  have 8: "jobs (the_store two_job_world) ''jj'' =
      Some \<lparr>job_id = ''jj'', mode = ''google-takeout'', status = PENDING, created_at = 1,
            updated_at = 1, log_lines = [], error = None, result_summary = None\<rparr>"
    unfolding two_job_world_def created_2 by simp
  have 9: "imports_raise cb_ok = None" "checkArgs_raise cb_ok = None"
    "init_raise cb_ok = None" "engine_raise cb_ok = None"
    by (simp_all add: cb_ok_def)
  let ?q = "[Some (''j'', ''google-takeout'', cb_disk_full), Some (''jj'', ''google-takeout'', cb_ok)]"
  let ?j = "\<lparr>job_id = ''j'', mode = ''google-takeout'', status = PENDING, created_at = 0,
            updated_at = 0, log_lines = [], error = None, result_summary = None\<rparr>"
  let ?j2 = "\<lparr>job_id = ''jj'', mode = ''google-takeout'', status = PENDING, created_at = 1,
            updated_at = 1, log_lines = [], error = None, result_summary = None\<rparr>"
  from execution_fault [OF 1 2 3 4 5 6 7, of "\<lambda>k. k"]
  obtain w' j' ls where r: "run_mode (\<lambda>k. k) cb_disk_full ''j'' ''google-takeout'' two_job_world = (None, w')"
      "jobs (the_store w') ''j'' = Some j'"
      "log_lines j' = log_lines ?j @ ls @ [''Error: '' @ str_of (Exception ''disk full'')]"
      "status j' = FAILED" "error j' = Some (str_of (Exception ''disk full''))"
    and a: "\<forall>jid2 md2 cb2. \<exists>r2 w2. run_mode (\<lambda>k. k) cb2 jid2 md2 w' = (r2, w2)
                 \<and> history w2 = history w' @ fst (run_mode_ops cb2 jid2 md2)
                 \<and> worker (\<lambda>k. k) [Some (''j'', ''google-takeout'', cb_disk_full), Some (jid2, md2, cb2)]
                      two_job_world = (worker_end_of r2, w2)
                 \<and> (\<forall>q. r2 = None \<longrightarrow>
                       worker (\<lambda>k. k) (Some (''j'', ''google-takeout'', cb_disk_full) # Some (jid2, md2, cb2) # q)
                         two_job_world = worker (\<lambda>k. k) q w2)"
    and b: "\<forall>jid2 md2 cb2 j2.
                 jobs (the_store two_job_world) jid2 = Some j2 \<and> imports_raise cb2 = None
                 \<and> checkArgs_raise cb2 = None \<and> init_raise cb2 = None \<and> engine_raise cb2 = None
                 \<and> (md2 = ''google-takeout'' \<or> md2 = ''automatic-migration'') \<longrightarrow>
                 (\<exists>wf jf. worker (\<lambda>k. k) [Some (''j'', ''google-takeout'', cb_disk_full), Some (jid2, md2, cb2)]
                      two_job_world = (Waiting, wf)
                    \<and> jobs (the_store wf) jid2 = Some jf \<and> status jf = DONE
                    \<and> result_summary jf = Some ''Completed successfully'')"
    by (elim exE conjE) (rule that; assumption)
  have r3: "log_lines j' = ls @ [''Error: disk full'']" using r(3) by simp
  have r5: "error j' = Some ''disk full''" using r(5) by simp
  have a': "\<exists>r2 w2. run_mode (\<lambda>k. k) cb_ok ''jj'' ''google-takeout'' w' = (r2, w2)
                 \<and> history w2 = history w' @ fst (run_mode_ops cb_ok ''jj'' ''google-takeout'')
                 \<and> worker (\<lambda>k. k) ?q two_job_world = (worker_end_of r2, w2)"
    using a[rule_format, of cb_ok "''jj''" "''google-takeout''"]
    by (elim exE conjE) (intro exI conjI; assumption)
  have b': "\<exists>wf jf. worker (\<lambda>k. k) ?q two_job_world = (Waiting, wf)
                 \<and> jobs (the_store wf) ''jj'' = Some jf \<and> status jf = DONE
                 \<and> result_summary jf = Some ''Completed successfully''"
    using b[rule_format, of "''jj''" ?j2 cb_ok "''google-takeout''"] 8 9
    by (simp del: worker.simps)
  have s: "map_option status (jobs (the_store two_job_world) ''j'') = Some PENDING"
    "map_option status (jobs (the_store two_job_world) ''jj'') = Some PENDING"
    by (simp_all add: 7 8)
  show ?thesis
    using 1 2 3 5 6 9 s r(1,2,4) r3 r5 a' b' by (simp del: worker.simps)
qed

section \<open>The status of a job along an execution\<close>

lemma map_filter_Emit: "List.map_filter (op_update jid) (map Emit rs) = []"
  by (induction rs) (simp_all add: List.map_filter_def)

lemma run_mode_ops_updates:
  assumes "run_mode_ops cb c md = (xs, r)"
  shows "List.map_filter (op_update jid) xs =
           (if jid = c then List.map_filter (op_update c) xs else [])
       \<and> (List.map_filter (op_update c) xs = [RUNNING]
          \<or> List.map_filter (op_update c) xs = [RUNNING, DONE]
          \<or> List.map_filter (op_update c) xs = [RUNNING, FAILED])"
  using assms
  by (auto simp: run_mode_ops_def try_body_def engine_block_def map_filter_append map_filter_Emit
      split: option.splits raised.splits if_splits prod.splits)

lemma emit_all_status:
  "map_option status (jobs (the_store (emit_all clk hs r w)) jid) = map_option status (jobs (the_store w) jid)"
  by (induction hs arbitrary: w) (auto simp: store_call_def jobs_append_job_log option.map_comp o_def)

lemma exec_op_status:
  "map_option status (jobs (the_store (exec_op clk x w)) jid) =
     (case op_update jid x of
        Some st \<Rightarrow> (if jobs (the_store w) jid = None then None else Some st)
      | None \<Rightarrow> map_option status (jobs (the_store w) jid))"
  by (cases x) (auto simp: exec_op_def store_call_def jobs_append_job_log jobs_update_job_status emit_all_status
      option.map_comp o_def)


lemma status_of_start_job:
  "status_of (start_job clk uuid md cb s) jid = (if jid = uuid then Some PENDING else status_of s jid)"
  by (simp add: status_of_def start_job_def store_call_def create_job_def Let_def)

lemma queue_ids_start_job: "queue_ids (start_job clk uuid md cb s) = queue_ids s @ [uuid]"
  by (simp add: queue_ids_def start_job_def map_filter_append)

lemma future_start_job: "future (start_job clk uuid md cb s) jid = future s jid"
  by (simp add: future_def start_job_def)

lemma step_Start:
  assumes "sys_inv s" "uuid \<notin> dom (jobs (the_store (sys_world s)))"
  shows "sys_inv (start_job clk uuid md cb s)
       \<and> job_step (status_of s jid) (future s jid)
             (status_of (start_job clk uuid md cb s) jid) (future (start_job clk uuid md cb s) jid)"
proof -
  have n: "status_of s uuid = None" using assms(2) by (auto simp: status_of_def)
  then have "uuid \<notin> set (queue_ids s)" using assms(1) by (auto simp: sys_inv_def)
  moreover have "future s uuid = []" using n assms(1) by (simp add: sys_inv_def)
  ultimately show ?thesis using assms(1) n
    by (auto simp: sys_inv_def job_step_def status_of_start_job queue_ids_start_job future_start_job)
qed

lemma step_Take:
  assumes "sys_inv s" "wstate s = Idle" "queue s = Some (c, md, cb) # q" "run_mode_ops cb c md = (xs, r)"
  shows "sys_inv (s\<lparr>queue := q, wstate := Busy xs r\<rparr>)
       \<and> job_step (status_of s jid) (future s jid)
             (status_of (s\<lparr>queue := q, wstate := Busy xs r\<rparr>) jid) (future (s\<lparr>queue := q, wstate := Busy xs r\<rparr>) jid)"
proof -
  let ?s' = "s\<lparr>queue := q, wstate := Busy xs r\<rparr>"
  have q: "queue_ids s = c # queue_ids ?s'" using assms(3) by (simp add: queue_ids_def map_filter_append)
  have st: "status_of ?s' j = status_of s j" for j by (simp add: status_of_def)
  have f0: "future s j = []" for j using assms(2) by (simp add: future_def)
  have f1: "future ?s' j = (if j = c then List.map_filter (op_update c) xs else [])" for j
    using run_mode_ops_updates[OF assms(4), of j] by (simp add: future_def)
  have u: "List.map_filter (op_update c) xs = [RUNNING]
          \<or> List.map_filter (op_update c) xs = [RUNNING, DONE]
          \<or> List.map_filter (op_update c) xs = [RUNNING, FAILED]"
    using run_mode_ops_updates[OF assms(4), of c] by simp
  have c: "status_of s c = Some PENDING" "c \<notin> set (queue_ids ?s')" "distinct (queue_ids ?s')"
    "\<forall>j \<in> set (queue_ids ?s'). status_of s j = Some PENDING"
    using assms(1) q by (auto simp: sys_inv_def)
  have "sys_inv ?s'" unfolding sys_inv_def using c by (auto simp: st f1)
  moreover have "job_step (status_of s jid) (future s jid) (status_of ?s' jid) (future ?s' jid)"
    using c(1) u by (auto simp: job_step_def st f0 f1)
  ultimately show ?thesis by simp
qed

lemma step_Exec:
  assumes "sys_inv s" "wstate s = Busy (x # xs) r"
  shows "sys_inv (s\<lparr>sys_world := exec_op clk x (sys_world s), wstate := Busy xs r\<rparr>)
       \<and> job_step (status_of s jid) (future s jid)
             (status_of (s\<lparr>sys_world := exec_op clk x (sys_world s), wstate := Busy xs r\<rparr>) jid)
             (future (s\<lparr>sys_world := exec_op clk x (sys_world s), wstate := Busy xs r\<rparr>) jid)"
proof -
  let ?s' = "s\<lparr>sys_world := exec_op clk x (sys_world s), wstate := Busy xs r\<rparr>"
  have q: "queue_ids ?s' = queue_ids s" by (simp add: queue_ids_def)
  have f: "future s j = (case op_update j x of None \<Rightarrow> future ?s' j | Some st \<Rightarrow> st # future ?s' j)" for j
    using assms(2) by (simp add: future_def split: option.splits)
  have st: "status_of ?s' j = (case op_update j x of
        Some st \<Rightarrow> (if status_of s j = None then None else Some st)
      | None \<Rightarrow> status_of s j)" for j
    by (simp add: status_of_def exec_op_status split: option.splits)
  have i3: "status_of s j = None \<Longrightarrow> future s j = []" for j using assms(1) by (simp add: sys_inv_def)
  have i2: "j \<in> set (queue_ids s) \<Longrightarrow> status_of s j = Some PENDING \<and> future s j = []" for j
    using assms(1) by (simp add: sys_inv_def)
  have A: "status_of ?s' j = None \<Longrightarrow> future ?s' j = []" for j
    using i3[of j] f[of j] st[of j] by (cases "op_update j x") (auto split: if_splits)
  have B: "j \<in> set (queue_ids s) \<Longrightarrow> status_of ?s' j = Some PENDING \<and> future ?s' j = []" for j
    using i2[of j] f[of j] st[of j] by (cases "op_update j x") auto
  have "sys_inv ?s'" unfolding sys_inv_def q using assms(1) A B by (auto simp: sys_inv_def)
  moreover have "job_step (status_of s jid) (future s jid) (status_of ?s' jid) (future ?s' jid)"
    using i3[of jid] f[of jid] st[of jid] by (cases "op_update jid x") (auto simp: job_step_def)
  ultimately show ?thesis by simp
qed

lemma step_inv:
  assumes "sys_inv s" "sys_step clk s s'"
  shows "sys_inv s' \<and> job_step (status_of s jid) (future s jid) (status_of s' jid) (future s' jid)"
  using assms(2)
proof cases
  case (Start uuid md cb)
  then show ?thesis using step_Start[OF assms(1)] by simp
next
  case Shutdown
  then show ?thesis using assms(1)
    by (auto simp: sys_inv_def job_step_def status_of_def future_def queue_ids_def map_filter_append)
next
  case (Take c md cb q xs r)
  then show ?thesis using step_Take[OF assms(1)] by simp
next
  case (Sentinel q)
  then show ?thesis using assms(1)
    by (auto simp: sys_inv_def job_step_def status_of_def future_def queue_ids_def map_filter_append)
next
  case (Exec x xs r)
  then show ?thesis using step_Exec[OF assms(1)] by simp
next
  case (Finish r)
  then show ?thesis using assms(1)
    by (auto simp: sys_inv_def job_step_def status_of_def future_def queue_ids_def map_filter_append
        split: option.splits)
qed


lemma remdups_adj_snoc:
  "remdups_adj (xs @ [y]) = (if xs \<noteq> [] \<and> last xs = y then remdups_adj xs else remdups_adj xs @ [y])"
  by (induction xs rule: remdups_adj.induct) auto

lemma legal_iff:
  "legal l \<longleftrightarrow> l = [] \<or> l = [PENDING] \<or> l = [PENDING, RUNNING]
      \<or> l = [PENDING, RUNNING, DONE] \<or> l = [PENDING, RUNNING, FAILED]"
  by (auto simp: legal_def prefix_Cons)

lemma legal_distinct: "legal l \<Longrightarrow> distinct l"
  by (auto simp: legal_iff)

lemma trace_inv_step:
  assumes "trace_inv (tr @ [s]) jid"
    and "job_step (status_of s jid) (future s jid) (status_of s' jid) (future s' jid)"
  shows "trace_inv (tr @ [s, s']) jid"
proof -
  let ?L = "seen jid (tr @ [s])"
  have L': "seen jid (tr @ [s, s']) = ?L @ (case status_of s' jid of None \<Rightarrow> [] | Some st \<Rightarrow> [st])"
    by (simp add: seen_def map_filter_append split: option.splits)
  have a: "case status_of s jid of None \<Rightarrow> ?L = [] | Some st \<Rightarrow> ?L \<noteq> [] \<and> last ?L = st"
    and l: "legal (remdups_adj ?L @ future s jid)"
    using assms(1) by (simp_all add: trace_inv_def)
  from assms(2) consider
      (same) "status_of s' jid = status_of s jid" "future s' jid = future s jid"
    | (new) "status_of s jid = None" "status_of s' jid = Some PENDING" "future s jid = []" "future s' jid = []"
    | (take) "status_of s jid = Some PENDING" "status_of s' jid = Some PENDING" "future s jid = []"
        "future s' jid = [RUNNING] \<or> future s' jid = [RUNNING, DONE] \<or> future s' jid = [RUNNING, FAILED]"
    | (upd) st where "status_of s jid \<noteq> None" "future s jid = st # future s' jid" "status_of s' jid = Some st"
    by (auto simp: job_step_def)
  then show ?thesis
  proof cases
    case same
    then show ?thesis using a l
      by (cases "status_of s jid") (simp_all add: trace_inv_def L' remdups_adj_snoc)
  next
    case new
    then show ?thesis using a l by (simp add: trace_inv_def L' legal_iff)
  next
    case take
    have "last (remdups_adj ?L) = PENDING" "remdups_adj ?L \<noteq> []"
      using a take(1) by (simp_all add: last_remdups_adj)
    moreover have "legal (remdups_adj ?L)" using l take(3) by simp
    ultimately have "remdups_adj ?L = [PENDING]"
      by (auto simp: legal_iff simp del: last_remdups_adj)
    then show ?thesis using a take
      by (auto simp add: trace_inv_def L' remdups_adj_snoc legal_iff)
  next
    case upd
    have ne: "?L \<noteq> []" using a upd(1) by auto
    have "distinct (remdups_adj ?L @ st # future s' jid)"
      using legal_distinct[OF l] upd(2) by simp
    then have "st \<notin> set (remdups_adj ?L)" by auto
    then have "last ?L \<noteq> st" using ne last_in_set[of ?L] by auto
    then show ?thesis using l upd ne
      by (simp add: trace_inv_def L' remdups_adj_snoc)
  qed
qed

lemma execution_inv:
  "execution clk tr \<Longrightarrow> sys_inv (last tr) \<and> (\<forall>jid. trace_inv tr jid)"
proof (induction rule: execution.induct)
  case Begin
  show ?case
    by (simp add: sys_inv_def trace_inv_def seen_def status_of_def future_def queue_ids_def init_system_def
        init_world_def empty_store_def legal_iff)
next
  case (Next tr s s')
  then have i: "sys_inv s" and t: "\<And>jid. trace_inv (tr @ [s]) jid" by simp_all
  have "sys_inv s'" using step_inv[OF i Next.hyps(2)] by simp
  moreover have "trace_inv (tr @ [s, s']) jid" for jid
    using trace_inv_step[OF t] step_inv[OF i Next.hyps(2)] by simp
  ultimately show ?case by simp
qed

text \<open>
  C2: along every execution of the system (jobs created by the routes, changed only
  by the worker's runs), the status sequence observed for any job is an initial part
  of \<open>pending, running, done\<close> or of \<open>pending, running, failed\<close>: it starts with
  \<open>pending\<close>, moves only forward, and nothing follows \<open>done\<close> or \<open>failed\<close>.
\<close>

theorem status_lifecycle:
  assumes "execution clk tr"
  shows "prefix (observed jid tr) [PENDING, RUNNING, DONE]
       \<or> prefix (observed jid tr) [PENDING, RUNNING, FAILED]"
proof -
  have "legal (remdups_adj (seen jid tr) @ future (last tr) jid)"
    using execution_inv[OF assms] by (simp add: trace_inv_def)
  then have "legal (observed jid tr)"
    by (auto simp: legal_def observed_def seen_def dest: append_prefixD)
  then show ?thesis by (simp add: legal_def)
qed

lemma execution_snoc:
  "execution clk tr \<Longrightarrow> tr \<noteq> [] \<Longrightarrow> sys_step clk (last tr) s' \<Longrightarrow> execution clk (tr @ [s'])"
proof -
  assume e: "execution clk tr" and n: "tr \<noteq> []" and st: "sys_step clk (last tr) s'"
  have "execution clk (butlast tr @ [last tr])" using e n by simp
  then have "execution clk (butlast tr @ [last tr, s'])" using st by (rule execution.Next)
  moreover have "butlast tr @ [last tr, s'] = tr @ [s']"
    using append_butlast_last_id[OF n] by (metis append.assoc append_Cons append_Nil)
  ultimately show ?thesis by simp
qed

lemma demo_execution: "execution (\<lambda>k. k) demo_trace"
proof -
  let ?clk = "\<lambda>k::nat. k"
  let ?s0 = "init_system"
  let ?s1 = "start_job ?clk ''j'' ''google-takeout'' cb_rejected ?s0"
  let ?s2 = "?s1\<lparr>queue := [], wstate := Busy [UpdateStatus ''j'' RUNNING None None,
                 UpdateStatus ''j'' FAILED (Some ''bad folder'') None] None\<rparr>"
  let ?s3 = "?s2\<lparr>sys_world := exec_op ?clk (UpdateStatus ''j'' RUNNING None None) (sys_world ?s2),
                 wstate := Busy [UpdateStatus ''j'' FAILED (Some ''bad folder'') None] None\<rparr>"
  let ?s4 = "?s3\<lparr>sys_world := exec_op ?clk (UpdateStatus ''j'' FAILED (Some ''bad folder'') None) (sys_world ?s3),
                 wstate := Busy [] None\<rparr>"
  let ?s5 = "?s4\<lparr>wstate := Idle\<rparr>"
  have e0: "execution ?clk [?s0]" by (rule execution.Begin)
  have "sys_step ?clk ?s0 ?s1"
    by (rule sys_step.Start) (simp add: init_system_def init_world_def empty_store_def)
  from execution_snoc[OF e0 _ ] this have e1: "execution ?clk [?s0, ?s1]" by simp
  have "sys_step ?clk ?s1 ?s2"
    by (rule sys_step.Take[where jid="''j''" and md="''google-takeout''" and cb=cb_rejected])
      (simp_all add: start_job_def init_system_def run_mode_ops_def try_body_def cb_rejected_def)
  from execution_snoc[OF e1] this have e2: "execution ?clk [?s0, ?s1, ?s2]" by simp
  have "sys_step ?clk ?s2 ?s3"
    by (rule sys_step.Exec) simp
  from execution_snoc[OF e2] this have e3: "execution ?clk [?s0, ?s1, ?s2, ?s3]" by simp
  have "sys_step ?clk ?s3 ?s4"
    by (rule sys_step.Exec) simp
  from execution_snoc[OF e3] this have e4: "execution ?clk [?s0, ?s1, ?s2, ?s3, ?s4]" by simp
  have "sys_step ?clk ?s4 (?s4\<lparr>wstate := (case (None::raised option) of None \<Rightarrow> Idle
                                       | Some e \<Rightarrow> if is_Exception e then Idle else Halted)\<rparr>)"
    by (rule sys_step.Finish) simp
  then have "sys_step ?clk ?s4 ?s5" by simp
  from execution_snoc[OF e4] this have e5: "execution ?clk [?s0, ?s1, ?s2, ?s3, ?s4, ?s5]" by simp
  show ?thesis unfolding demo_trace_def Let_def by (rule e5)
qed

lemma demo_observed: "observed ''j'' demo_trace = [PENDING, RUNNING, FAILED]"
  by (simp add: observed_def demo_trace_def Let_def status_of_def start_job_def store_call_def
      create_job_def init_system_def init_world_def empty_store_def exec_op_def
      jobs_update_job_status List.map_filter_def)

theorem status_lifecycle_witness:
  "execution (\<lambda>k. k) demo_trace
   \<and> observed ''j'' demo_trace = [PENDING, RUNNING, FAILED]
   \<and> (prefix (observed ''j'' demo_trace) [PENDING, RUNNING, DONE]
       \<or> prefix (observed ''j'' demo_trace) [PENDING, RUNNING, FAILED])"
  using demo_execution demo_observed status_lifecycle[OF demo_execution, of "''j''"] by simp

section \<open>Properties of the configuration schema\<close>

text \<open>
  C7, the claim as stated fails for a section name with an underscore: \<open>My_Section\<close>
  is encoded as itself and decoded as \<open>My Section\<close>.
\<close>

theorem section_name_counterexample: "form_to_section (section_to_form ''My_Section'') \<noteq> ''My_Section''"
  by (simp add: form_to_section_def section_to_form_def replace_def)

text \<open>
  C7 as amended: decoding reverses encoding exactly for the section names that
  contain no underscore (as all names of the registry are).
\<close>

theorem section_name_roundtrip:
  "form_to_section (section_to_form s) = s \<longleftrightarrow> CHR ''_'' \<notin> set s"
proof
  assume "form_to_section (section_to_form s) = s"
  moreover have "CHR ''_'' \<notin> set (form_to_section t)" for t
    by (auto simp: form_to_section_def replace_def)
  ultimately show "CHR ''_'' \<notin> set s" by metis
next
  assume "CHR ''_'' \<notin> set s"
  then show "form_to_section (section_to_form s) = s"
    by (induction s) (auto simp: form_to_section_def section_to_form_def replace_def)
qed

theorem section_name_roundtrip_witness:
  "form_to_section (section_to_form ''Apple Photos'') = ''Apple Photos''"
  using section_name_roundtrip [of "''Apple Photos''"] by simp

subsection \<open>The merge\<close>

lemma map_of_dict_set: "map_of (dict_set d k v) = (map_of d)(k \<mapsto> v)"
  by (induction d) (auto simp: fun_eq_iff)

lemma dict_set_new: "k \<notin> fst ` set d \<Longrightarrow> dict_set d k v = d @ [(k, v)]"
  by (induction d) auto

lemma dict_set_old:
  "k \<in> fst ` set d \<Longrightarrow> distinct (map fst d) \<Longrightarrow>
   dict_set d k v = map (\<lambda>(k', v'). if k' = k then (k', v) else (k', v')) d"
proof (induction d)
  case Nil
  then show ?case by simp
next
  case (Cons a d)
  obtain k' v' where a: "a = (k', v')" by (cases a)
  show ?case
  proof (cases "k' = k")
    case True
    then have "k \<notin> fst ` set d" using Cons.prems(2) a by auto
    then have "map (\<lambda>(k', v'). if k' = k then (k', v) else (k', v')) d = d"
      by (induction d) auto
    then show ?thesis using True a by simp
  next
    case False
    then show ?thesis using Cons a by auto
  qed
qed

lemma foldl_dict_set_distinct:
  "distinct (map fst (acc @ xs)) \<Longrightarrow> foldl (\<lambda>d (k, v). dict_set d k v) acc xs = acc @ xs"
proof (induction xs arbitrary: acc)
  case Nil
  then show ?case by simp
next
  case (Cons x xs)
  obtain k v where x: "x = (k, v)" by (cases x)
  have "dict_set acc k v = acc @ [(k, v)]"
    using Cons.prems x by (intro dict_set_new) auto
  moreover have "distinct (map fst ((acc @ [(k, v)]) @ xs))" using Cons.prems x by simp
  ultimately show ?case using Cons.IH[of "acc @ [(k, v)]"] x by simp
qed

lemma dict_of_distinct: "distinct (map fst xs) \<Longrightarrow> dict_of xs = xs"
  using foldl_dict_set_distinct[of "[]" xs] by (simp add: dict_of_def)

lemma map_of_foldl_dict_set:
  "map_of (foldl (\<lambda>d (k, v). dict_set d k v) acc xs) = map_of acc ++ map_of (rev xs)"
proof (induction xs arbitrary: acc)
  case Nil
  then show ?case by simp
next
  case (Cons x xs)
  obtain k v where x: "x = (k, v)" by (cases x)
  show ?case
    by (simp add: Cons.IH x map_of_dict_set map_add_def fun_eq_iff split: option.splits)
qed

lemma map_of_dict_of: "map_of (dict_of xs) = map_of (rev xs)"
  by (simp add: dict_of_def map_of_foldl_dict_set)


lemma set_file_value_map:
  assumes "distinct (map fst d)"
  shows "set_file_value d k = map (\<lambda>(n, x). if n = key k then (n, x\<lparr>val := val k\<rparr>) else (n, x)) d"
proof (cases "map_of d (key k)")
  case None
  then have "key k \<notin> fst ` set d" by (simp add: map_of_eq_None_iff)
  then have "map (\<lambda>(n, x). if n = key k then (n, x\<lparr>val := val k\<rparr>) else (n, x)) d = d"
    by (induction d) auto
  then show ?thesis using None by (simp add: set_file_value_def)
next
  case (Some x)
  then have in_d: "(key k, x) \<in> set d" by (rule map_of_SomeD)
  then have 1: "key k \<in> fst ` set d" by force
  have "map (\<lambda>(k', v'). if k' = key k then (k', x\<lparr>val := val k\<rparr>) else (k', v')) d
      = map (\<lambda>(n, y). if n = key k then (n, y\<lparr>val := val k\<rparr>) else (n, y)) d"
  proof (rule map_cong[OF refl])
    fix p assume p: "p \<in> set d"
    obtain n y where py: "p = (n, y)" by (cases p)
    have "n = key k \<Longrightarrow> y = x"
      using assms p py in_d by (metis eq_key_imp_eq_value)
    then show "(case p of (k', v') \<Rightarrow> if k' = key k then (k', x\<lparr>val := val k\<rparr>) else (k', v'))
             = (case p of (n, y) \<Rightarrow> if n = key k then (n, y\<lparr>val := val k\<rparr>) else (n, y))"
      using py by auto
  qed
  then show ?thesis using Some dict_set_old[OF 1 assms] by (simp add: set_file_value_def)
qed

lemma foldl_set_file_value:
  "distinct (map fst d) \<Longrightarrow>
   foldl set_file_value d fs =
     map (\<lambda>(n, x). (n, x\<lparr>val := (case map_of (rev (map (\<lambda>k. (key k, val k)) fs)) n of
                                     Some v \<Rightarrow> v | None \<Rightarrow> val x)\<rparr>)) d"
proof (induction fs arbitrary: d)
  case Nil
  then show ?case by (simp add: case_prod_beta)
next
  case (Cons f fs)
  let ?d' = "map (\<lambda>(n, x). if n = key f then (n, x\<lparr>val := val f\<rparr>) else (n, x)) d"
  have d': "set_file_value d f = ?d'" by (rule set_file_value_map[OF Cons.prems])
  have mf: "map fst ?d' = map fst d" by (induction d) auto
  have dist: "distinct (map fst ?d')" unfolding mf by (rule Cons.prems)
  show ?case
    unfolding foldl_Cons d' Cons.IH[OF dist]
    by (auto simp: map_add_def split: option.splits)
qed

lemma merge_section_eq:
  assumes "distinct (map key (options sect))"
  shows "merge_section (dict_of (map (\<lambda>s. (name s, s)) parsed)) sect = merged_section parsed sect"
proof -
  let ?d = "map (\<lambda>k. (key k, k)) (options sect)"
  have dist: "distinct (map fst ?d)" using assms by (simp add: o_def)
  have d: "dict_of ?d = ?d" by (rule dict_of_distinct[OF dist])
  show ?thesis
    unfolding merge_section_def merged_section_def Let_def d map_of_dict_of file_value_def
    by (cases "map_of (rev (map (\<lambda>s. (name s, s)) parsed)) (name sect)")
       (simp_all add: foldl_set_file_value[OF dist] o_def)
qed

lemma merge_parsed_with_schema_eq:
  assumes "list_all (\<lambda>sect. distinct (map key (options sect))) schema"
  shows "merge_parsed_with_schema parsed schema = map (merged_section parsed) schema"
  unfolding merge_parsed_with_schema_def Let_def
  using assms by (intro map_cong[OF refl] merge_section_eq) (simp add: list_all_iff)

lemma map_of_rev_distinct:
  "distinct (map fst xs) \<Longrightarrow> (k, v) \<in> set xs \<Longrightarrow> map_of (rev xs) k = Some v"
  by (simp add: distinct_map distinct_rev inj_on_def)

lemma file_value_merged:
  assumes "wf_schema schema" "sect \<in> set schema" "x \<in> set (options sect)"
  shows "file_value (map (merged_section parsed) schema) (name sect) (key x) =
           Some (case file_value parsed (name sect) (key x) of Some v \<Rightarrow> v | None \<Rightarrow> val x)"
proof -
  have dn: "distinct (map fst (map (\<lambda>s. (name s, s)) (map (merged_section parsed) schema)))"
    using assms(1) by (simp add: wf_schema_def o_def merged_section_def)
  have "(name sect, merged_section parsed sect) \<in> set (map (\<lambda>s. (name s, s)) (map (merged_section parsed) schema))"
    using assms(2) by (force simp: merged_section_def)
  from map_of_rev_distinct[OF dn this]
  have 1: "map_of (rev (map (\<lambda>s. (name s, s)) (map (merged_section parsed) schema))) (name sect)
            = Some (merged_section parsed sect)" .
  have dk: "distinct (map key (options sect))"
    using assms(1,2) by (simp add: wf_schema_def list_all_iff)
  then have dk': "distinct (map fst (map (\<lambda>x. (key x, val x)) (options (merged_section parsed sect))))"
    by (simp add: merged_section_def o_def)
  have "(key x, case file_value parsed (name sect) (key x) of Some v \<Rightarrow> v | None \<Rightarrow> val x)
          \<in> set (map (\<lambda>x. (key x, val x)) (options (merged_section parsed sect)))"
    using assms(3) by (force simp: merged_section_def)
  from map_of_rev_distinct[OF dk' this] 1 show ?thesis
    by (simp add: file_value_def)
qed

lemma merged_idem:
  assumes "wf_schema schema"
  shows "map (merged_section (map (merged_section parsed) schema)) schema = map (merged_section parsed) schema"
proof (rule map_cong[OF refl])
  fix sect assume s: "sect \<in> set schema"
  have "map (\<lambda>x. x\<lparr>val := (case file_value (map (merged_section parsed) schema) (name sect) (key x) of
                                        Some v \<Rightarrow> v | None \<Rightarrow> val x),
                              form_section := section_to_form (name sect)\<rparr>) (options sect)
      = map (\<lambda>x. x\<lparr>val := (case file_value parsed (name sect) (key x) of
                                        Some v \<Rightarrow> v | None \<Rightarrow> val x),
                              form_section := section_to_form (name sect)\<rparr>) (options sect)"
    by (rule map_cong[OF refl]) (simp add: file_value_merged[OF assms s])
  then show "merged_section (map (merged_section parsed) schema) sect = merged_section parsed sect"
    by (simp add: merged_section_def)
qed

lemma merge_idem_general:
  assumes "wf_schema schema"
  shows "merge_parsed_with_schema (merge_parsed_with_schema parsed schema) schema
       = merge_parsed_with_schema parsed schema"
proof -
  have l: "list_all (\<lambda>sect. distinct (map key (options sect))) schema"
    using assms by (simp add: wf_schema_def)
  show ?thesis by (simp add: merge_parsed_with_schema_eq[OF l] merged_idem[OF assms])
qed

lemma wf_default: "wf_schema default_sections_structure"
  by (simp add: wf_schema_def default_sections_structure_def schema_section_def schema_option_def)

text \<open>
  C5: merging the result of a merge with the registry schema again gives the same
  list of sections, for every parse result \<open>p\<close>.
\<close>

theorem merge_idempotent:
  "merge_parsed_with_schema (merge_parsed_with_schema p default_sections_structure)
      default_sections_structure
   = merge_parsed_with_schema p default_sections_structure"
  by (rule merge_idem_general[OF wf_default])

subsection \<open>A file without sections\<close>

lemma merge_empty_default:
  "merge_parsed_with_schema [] default_sections_structure = default_sections_structure"
proof -
  have l: "list_all (\<lambda>sect. distinct (map key (options sect))) default_sections_structure"
    using wf_default by (simp add: wf_schema_def)
  show ?thesis
    unfolding merge_parsed_with_schema_eq[OF l]
    by (simp add: default_sections_structure_def schema_section_def schema_option_def
        merged_section_def file_value_def)
qed

lemma merge_default_default:
  "merge_parsed_with_schema default_sections_structure default_sections_structure
     = default_sections_structure"
  using merge_idem_general[OF wf_default, of "[]"] by (simp add: merge_empty_default)

lemma default_not_empty: "default_sections_structure \<noteq> []"
  by (simp add: default_sections_structure_def)

lemma default_values:
  "file_value default_sections_structure ''Apple Photos'' ''album'' = Some ''all''"
  "file_value default_sections_structure ''Apple Photos'' ''max_photos'' = Some ''10000''"
  "file_value default_sections_structure ''TimeZone'' ''timezone'' = Some ''US/Central''"
  by (simp_all add: file_value_def default_sections_structure_def schema_section_def schema_option_def)

text \<open>
  C10: when the file is there and \<open>ConfigParser\<close> reads it without error but finds
  no section, \<open>parse_config\<close> and \<open>parse_config_with_schema\<close> both return the
  default structure of the registry, which is not empty and holds the default values
  (\<open>album = all\<close>, \<open>max_photos = 10000\<close>, \<open>timezone = US/Central\<close>).
\<close>

theorem no_sections_gives_defaults:
  assumes "cp_read txt = Inr cp" and "ini_sections cp = []"
  shows "parse_config (Text txt) = default_sections_structure
       \<and> parse_config_with_schema (Text txt) = default_sections_structure
       \<and> parse_config_with_schema (Text txt) \<noteq> []
       \<and> file_value (parse_config_with_schema (Text txt)) ''Apple Photos'' ''album'' = Some ''all''
       \<and> file_value (parse_config_with_schema (Text txt)) ''Apple Photos'' ''max_photos'' = Some ''10000''
       \<and> file_value (parse_config_with_schema (Text txt)) ''TimeZone'' ''timezone'' = Some ''US/Central''"
proof -
  have p: "parse_config (Text txt) = default_sections_structure"
    using assms by (simp add: parse_config_def)
  have "parse_config_with_schema (Text txt) = default_sections_structure"
    by (simp add: parse_config_with_schema_def p default_not_empty merge_default_default)
  then show ?thesis using p default_not_empty default_values by simp
qed

lemma cp_read_empty: "cp_read [] = Inr \<lparr>ini_defaults = [], ini_sections = []\<rparr>"
  by (simp add: cp_read_def file_lines_def new_reader_def join_values_def)

theorem no_sections_gives_defaults_witness:
  "cp_read [] = Inr \<lparr>ini_defaults = [], ini_sections = []\<rparr>
   \<and> parse_config (Text []) = default_sections_structure
   \<and> parse_config_with_schema (Text []) = default_sections_structure
   \<and> file_value (parse_config_with_schema (Text [])) ''Apple Photos'' ''album'' = Some ''all''"
proof -
  have s: "ini_sections \<lparr>ini_defaults = [], ini_sections = []\<rparr> = []" by simp
  from no_sections_gives_defaults [OF cp_read_empty s] cp_read_empty show ?thesis by blast
qed

section \<open>Lines and whitespace\<close>

lemma isspace_nl [simp]: "isspace (CHR 0x0A)" by (simp add: isspace_def)

lemma rstrip_append:
  "rstrip (xs @ ys) = (if blank ys then rstrip xs else xs @ rstrip ys)"
  by (simp add: rstrip_def blank_def dropWhile_append list_all_iff)

lemma rstrip_blank: "blank l \<Longrightarrow> rstrip l = []"
  by (simp add: rstrip_def blank_def list_all_iff)

lemma rstrip_Nil [simp]: "rstrip [] = []" by (simp add: rstrip_def)

lemma join_snoc: "ls \<noteq> [] \<Longrightarrow> join sep (ls @ [l]) = join sep ls @ sep @ l"
  by (induction sep ls rule: join.induct) auto

lemma tidy_snoc:
  "tidy (ls @ [l]) = (if blank l then tidy ls else ls @ [rstrip l])"
  by (simp add: tidy_def)

lemma rstrip_join: "rstrip (join nl ls) = join nl (tidy ls)"
proof (induction ls rule: rev_induct)
  case Nil
  then show ?case by (simp add: tidy_def)
next
  case (snoc l ls)
  show ?case
  proof (cases "ls = []")
    case True
    then show ?thesis by (auto simp add: tidy_snoc rstrip_blank tidy_def)
  next
    case False
    have b: "blank (nl @ l) \<longleftrightarrow> blank l" by (simp add: blank_def nl_def)
    have 1: "rstrip (join nl ls @ (nl @ l)) =
        (if blank (nl @ l) then rstrip (join nl ls) else join nl ls @ rstrip (nl @ l))"
      by (rule rstrip_append)
    have 2: "rstrip (nl @ l) = (if blank l then rstrip nl else nl @ rstrip l)"
      by (rule rstrip_append)
    have "rstrip (join nl ls @ nl @ l) = (if blank l then rstrip (join nl ls) else join nl ls @ nl @ rstrip l)"
      unfolding 1 2 b by simp
    then show ?thesis using False snoc by (simp add: join_snoc tidy_snoc)
  qed
qed

lemma lines_from_line:
  "no_breaks l \<Longrightarrow> lines_from cur (l @ CHR 0x0A # rest) = (cur @ l) # lines_from [] rest"
  by (induction l arbitrary: cur) (auto simp: no_breaks_def)

lemma file_lines_join_aux:
  "ls \<noteq> [] \<Longrightarrow> list_all no_breaks ls \<Longrightarrow> lines_from [] (join [CHR 0x0A] ls @ [CHR 0x0A]) = ls"
proof (induction ls)
  case Nil
  then show ?case by simp
next
  case (Cons x ys)
  show ?case
  proof (cases ys)
    case Nil
    then show ?thesis using Cons.prems lines_from_line[of x "[]" "[]"] by simp
  next
    case (Cons y zs)
    then show ?thesis
      using Cons.prems Cons.IH lines_from_line[of x "[]" "join [CHR 0x0A] (y # zs) @ [CHR 0x0A]"]
      by simp
  qed
qed

lemma file_lines_join:
  "ls \<noteq> [] \<Longrightarrow> list_all no_breaks ls \<Longrightarrow> file_lines (join nl ls @ nl) = ls"
  by (simp add: file_lines_def nl_def file_lines_join_aux)

lemma lstrip_clean: "s \<noteq> [] \<Longrightarrow> \<not> isspace (hd s) \<Longrightarrow> lstrip (s @ t) = s @ t"
  by (cases s) (simp_all add: lstrip_def)

lemma rstrip_clean: "s \<noteq> [] \<Longrightarrow> \<not> isspace (last s) \<Longrightarrow> rstrip (t @ s) = t @ s"
  by (cases s rule: rev_cases) (simp_all add: rstrip_def)

lemma strip_clean: "clean s \<Longrightarrow> strip s = s"
  using lstrip_clean[of s "[]"] rstrip_clean[of s "[]"] by (simp add: clean_def strip_def)

lemma strip_stripped: "stripped v \<Longrightarrow> strip v = v"
  by (auto simp: stripped_def strip_clean) (simp add: strip_def lstrip_def)

lemma rstrip_no_trailing: "rstrip s \<noteq> [] \<Longrightarrow> \<not> isspace (last (rstrip s))"
proof -
  assume a: "rstrip s \<noteq> []"
  then have "dropWhile isspace (rev s) \<noteq> []" by (simp add: rstrip_def)
  then have "\<not> isspace (hd (dropWhile isspace (rev s)))" by (rule hd_dropWhile)
  then show ?thesis using a by (simp add: rstrip_def last_rev)
qed

lemma stripped_strip: "stripped (strip s)"
proof (cases "strip s = []")
  case True
  then show ?thesis by (simp add: stripped_def)
next
  case False
  then have 1: "\<not> isspace (hd (strip s))"
    unfolding strip_def lstrip_def by (rule hd_dropWhile)
  have ne: "rstrip s \<noteq> []" using False by (auto simp: strip_def lstrip_def)
  obtain ys where ys: "rstrip s = ys @ strip s"
    unfolding strip_def lstrip_def by (metis takeWhile_dropWhile_id)
  then have "last (strip s) = last (rstrip s)" using False by simp
  then have "\<not> isspace (last (strip s))" using rstrip_no_trailing[OF ne] by simp
  then show ?thesis using False 1 by (simp add: stripped_def clean_def)
qed

lemma strip_key_line:
  assumes "clean k"
  shows "strip (k @ x) = k @ rstrip x"
proof -
  have k: "k \<noteq> []" "\<not> isspace (hd k)" "\<not> isspace (last k)" using assms by (simp_all add: clean_def)
  have "rstrip (k @ x) = k @ rstrip x"
    using rstrip_clean[OF k(1,3), of "[]"] by (auto simp: rstrip_append rstrip_blank)
  then show ?thesis using lstrip_clean[OF k(1,2)] by (simp add: strip_def)
qed

lemma rstrip_value:
  assumes "stripped v"
  shows "rstrip ('' = '' @ v) = '' ='' @ (if v = [] then [] else '' '' @ v)"
proof (cases "v = []")
  case True
  then show ?thesis by (simp add: rstrip_def isspace_def)
next
  case False
  then have "\<not> isspace (last v)" using assms by (simp add: stripped_def clean_def)
  then show ?thesis using False rstrip_clean[of v "'' = ''"] by simp
qed

lemma rstrip_idem: "rstrip (rstrip l) = rstrip l"
proof (cases "rstrip l = []")
  case True
  then show ?thesis by simp
next
  case False
  then show ?thesis using rstrip_no_trailing[OF False] rstrip_clean[of "rstrip l" "[]"] by simp
qed

lemma takeWhile_rstrip:
  "\<not> blank l \<Longrightarrow> takeWhile isspace (rstrip l) = takeWhile isspace l"
proof -
  assume nb: "\<not> blank l"
  obtain ys where ys: "l = rstrip l @ ys"
    unfolding rstrip_def by (metis rev_append rev_rev_ident takeWhile_dropWhile_id)
  have "\<not> blank (rstrip l)"
  proof
    assume b: "blank (rstrip l)"
    have "rstrip (rstrip l) = []" using b by (rule rstrip_blank)
    then have "rstrip l = []" by (simp add: rstrip_idem)
    then have "dropWhile isspace (rev l) = []" by (simp add: rstrip_def)
    then show False using nb by (simp add: blank_def list_all_iff)
  qed
  then obtain c where c: "c \<in> set (rstrip l)" "\<not> isspace c" by (auto simp: blank_def list_all_iff)
  then have "takeWhile isspace (rstrip l @ ys) = takeWhile isspace (rstrip l)"
    by (intro takeWhile_append1) auto
  then show ?thesis using ys by simp
qed

lemma tidy_Cons:
  "\<not> blank x \<Longrightarrow> tidy (x # xs) = (if list_all blank xs then [rstrip x] else x # tidy xs)"
proof -
  assume nb: "\<not> blank x"
  show ?thesis
  proof (cases "list_all blank xs")
    case True
    then have "dropWhile blank (rev xs @ [x]) = [x]"
      using nb by (simp add: dropWhile_append list_all_iff)
    then show ?thesis using True by (simp add: tidy_def)
  next
    case False
    then obtain l r where lr: "dropWhile blank (rev xs) = l # r"
      by (cases "dropWhile blank (rev xs)") (auto simp: list_all_iff)
    then have "dropWhile blank (rev xs @ [x]) = (l # r) @ [x]"
      by (metis dropWhile_append1 dropWhile_eq_Nil_conv list.distinct(1) set_rev)
    then show ?thesis using False lr by (simp add: tidy_def)
  qed
qed

lemma no_breaks_rstrip: "no_breaks l \<Longrightarrow> no_breaks (rstrip l)"
proof -
  have "set (rstrip l) \<subseteq> set l"
    unfolding rstrip_def using set_dropWhileD[of _ isspace "rev l"] by auto
  then show "no_breaks l \<Longrightarrow> no_breaks (rstrip l)" by (auto simp: no_breaks_def)
qed

lemma no_breaks_tidy: "list_all no_breaks ls \<Longrightarrow> list_all no_breaks (tidy ls)"
proof -
  assume a: "list_all no_breaks ls"
  show ?thesis
  proof (cases "dropWhile blank (rev ls)")
    case Nil
    have "tidy ls = []" unfolding tidy_def Nil by simp
    then show ?thesis by simp
  next
    case (Cons l r)
    have t: "tidy ls = rev r @ [rstrip l]" unfolding tidy_def Cons by simp
    have "set (l # r) \<subseteq> set ls"
      using set_dropWhileD[of _ blank "rev ls"] Cons by auto
    then show ?thesis using a by (auto simp: t list_all_iff no_breaks_rstrip)
  qed
qed

lemma join_Cons: "join sep (x # xs) = x @ (if xs = [] then [] else sep @ join sep xs)"
  by (cases xs) simp_all

lemma set_strip: "set (strip v) \<subseteq> set v"
proof -
  have "set (rstrip v) \<subseteq> set v"
    unfolding rstrip_def using set_dropWhileD[of _ isspace "rev v"] by auto
  moreover have "set (lstrip w) \<subseteq> set w" for w
    unfolding lstrip_def using set_dropWhileD[of _ isspace w] by auto
  ultimately show ?thesis unfolding strip_def by blast
qed

lemma not_in_strip: "c \<notin> set v \<Longrightarrow> c \<notin> set (strip v)"
  using set_strip[of v] by blast

lemma strip_inline_comment_no_hash:
  assumes "CHR ''#'' \<notin> set v"
  shows "strip_inline_comment (strip v) = strip v"
proof -
  have "CHR ''#'' \<notin> set (strip v)" using assms set_strip by blast
  then have "str_find CHR ''#'' (strip v) = None" by (simp add: str_find_def)
  then show ?thesis
    by (simp add: strip_inline_comment_def strip_stripped[OF stripped_strip])
qed

section \<open>Reading the lines of a built file\<close>

lemma match_option_line:
  assumes "key_ok k" "stripped v"
  shows "match_option (k @ '' ='' @ (if v = [] then [] else '' '' @ v)) = Some (k, v)"
proof -
  let ?P = "\<lambda>c. c \<noteq> CHR ''='' \<and> c \<noteq> CHR '':''"
  let ?w = "(if v = [] then [] else '' '' @ v)"
  have all: "\<forall>c \<in> set (k @ '' ''). ?P c" using assms(1) by (auto simp: key_ok_def)
  have d: "dropWhile ?P ((k @ '' '') @ CHR ''='' # ?w) = CHR ''='' # ?w"
    using all by (subst dropWhile_append2) auto
  have t: "takeWhile ?P ((k @ '' '') @ CHR ''='' # ?w) = k @ '' ''"
    using all by (subst takeWhile_append2) auto
  have ck: "clean k" using assms(1) by (simp add: key_ok_def)
  have rk: "rstrip (k @ '' '') = k"
    using ck by (simp add: rstrip_append blank_def isspace_def clean_def rstrip_clean[of k "[]", simplified])
  have lw: "lstrip ?w = v"
    using assms(2) lstrip_clean[of v "[]"] by (auto simp: lstrip_def isspace_def stripped_def clean_def)
  have e: "k @ '' ='' @ ?w = (k @ '' '') @ CHR ''='' # ?w" by simp
  show ?thesis unfolding e match_option_def d t by (simp add: rk lw)
qed

lemma match_section_key:
  assumes "key_ok k"
  shows "match_section (k @ x) = None"
  using assms by (cases k) (auto simp: match_section_def key_ok_def clean_def)

lemma match_section_header: "nm \<noteq> [] \<Longrightarrow> match_section (''['' @ nm @ '']'') = Some nm"
  by (simp add: match_section_def)

lemma cp_read_outcome: "cp_read txt = outcome (read_lines (file_lines txt) new_reader)"
  by (simp add: cp_read_def outcome_def joined_def split: sum.splits)

lemma read_lines_append:
  "read_lines (xs @ ys) r = (case read_lines xs r of Inl e \<Rightarrow> Inl e | Inr r' \<Rightarrow> read_lines ys r')"
  by (induction xs arbitrary: r) (auto split: sum.splits)

lemma strip_blank: "blank l \<Longrightarrow> strip l = []"
  by (simp add: strip_def rstrip_blank lstrip_def)

lemma read_line_blank:
  "blank l \<Longrightarrow> read_line l r =
     Inr (if sectname r \<noteq> None \<and> optname r \<noteq> None \<and> optname r \<noteq> Some []
          then append_value [] r else r)"
  by (simp add: read_line_def strip_blank)

lemma rstrip_join_blank: "rstrip (join nl (vs @ [[]])) = rstrip (join nl vs)"
proof (cases "vs = []")
  case True
  then show ?thesis by simp
next
  case False
  have "blank nl" by (simp add: blank_def nl_def)
  then show ?thesis using False by (simp add: join_snoc rstrip_append)
qed

lemma join_values_append_blank:
  "join_values (map (\<lambda>(k', vs). if k' = k then (k', vs @ [[]]) else (k', vs)) d) = join_values d"
  by (induction d) (auto simp: join_values_def rstrip_join_blank[unfolded nl_def])

lemma append_value_blank:
  "parse_errors (append_value [] r) = parse_errors r
   \<and> joined (append_value [] r) = joined r
   \<and> join_values (r_defaults (append_value [] r)) = join_values (r_defaults r)"
proof (cases "optname r")
  case None
  then show ?thesis by (simp add: append_value_def)
next
  case (Some k)
  show ?thesis
  proof (cases "sectname r")
    case None
    then show ?thesis using Some by (simp add: append_value_def cursect_update_def)
  next
    case (Some s)
    have "map (\<lambda>(n, d). (n, join_values d))
            (map (\<lambda>(n, d). if n = s then (n, map (\<lambda>(k', vs). if k' = k then (k', vs @ [[]]) else (k', vs)) d) else (n, d)) ds)
          = map (\<lambda>(n, d). (n, join_values d)) ds" for ds
      by (induction ds) (auto simp: join_values_append_blank)
    then show ?thesis using Some \<open>optname r = Some k\<close>
      by (simp add: append_value_def cursect_update_def joined_def join_values_append_blank)
  qed
qed

lemma outcome_blank_line:
  assumes "blank l"
  shows "outcome (case x of Inl e \<Rightarrow> Inl e | Inr r \<Rightarrow> read_line l r) = outcome x"
proof (cases x)
  case (Inl e)
  then show ?thesis by simp
next
  case (Inr r)
  then show ?thesis
    using append_value_blank[of r] by (simp add: read_line_blank[OF assms] outcome_def)
qed

lemma outcome_blank_lines:
  "list_all blank bl \<Longrightarrow> outcome (read_lines (ls @ bl) r) = outcome (read_lines ls r)"
proof (induction bl rule: rev_induct)
  case Nil
  then show ?case by simp
next
  case (snoc l bl)
  have "read_lines (ls @ bl @ [l]) r =
      (case read_lines (ls @ bl) r of Inl e \<Rightarrow> Inl e | Inr r' \<Rightarrow> read_line l r')"
    using read_lines_append[of "ls @ bl" "[l]" r] by (simp split: sum.splits)
  then show ?case using snoc outcome_blank_line[of l "read_lines (ls @ bl) r"] by simp
qed

lemma read_line_rstrip: "read_line (rstrip l) r = read_line l r"
proof (cases "blank l")
  case True
  then have "blank (rstrip l)" by (simp add: rstrip_blank blank_def)
  then show ?thesis using True by (simp add: read_line_blank)
next
  case False
  have e: "strip (rstrip l) = strip l" by (simp add: strip_def rstrip_idem)
  show ?thesis unfolding read_line_def e takeWhile_rstrip[OF False] by (rule refl)
qed

lemma outcome_tidy: "outcome (read_lines (tidy ls) r) = outcome (read_lines ls r)"
proof (cases "dropWhile blank (rev ls)")
  case Nil
  have t: "tidy ls = []" unfolding tidy_def Nil by simp
  have "list_all blank ls" using Nil by (simp add: list_all_iff)
  then show ?thesis using outcome_blank_lines[of ls "[]" r] by (simp add: t)
next
  case (Cons l rest)
  have "rev ls = takeWhile blank (rev ls) @ l # rest"
    using Cons by (metis takeWhile_dropWhile_id)
  then have ls: "ls = (rev rest @ [l]) @ rev (takeWhile blank (rev ls))"
    by (metis rev_append rev_rev_ident rev.simps(2))
  have bl: "list_all blank (rev (takeWhile blank (rev ls)))"
    by (simp add: list_all_iff) (meson set_takeWhileD)
  have "outcome (read_lines ls r) = outcome (read_lines (rev rest @ [l]) r)"
    using outcome_blank_lines[OF bl, of "rev rest @ [l]" r] ls by simp
  moreover have "read_lines (rev rest @ [rstrip l]) r = read_lines (rev rest @ [l]) r"
    by (simp add: read_lines_append read_line_rstrip split: sum.splits)
  moreover have "tidy ls = rev rest @ [rstrip l]" unfolding tidy_def Cons by simp
  ultimately show ?thesis by simp
qed

lemma map_other_sections:
  "n \<notin> fst ` set ds \<Longrightarrow> map (\<lambda>(n', d). if n' = n then (n', f d) else (n', d)) ds = ds"
  by (induction ds) auto

lemma read_line_header:
  assumes "name_ok nm" "nm \<notin> fst ` set (r_sections base)"
  shows "read_line (''['' @ nm @ '']'') base = Inr (at_section base nm [])"
proof -
  have c: "clean (''['' @ nm @ '']'')" by (simp add: clean_def isspace_def)
  have s: "strip (''['' @ nm @ '']'') = ''['' @ nm @ '']''" by (rule strip_clean[OF c])
  have "nm \<noteq> []" using assms(1) by (simp add: name_ok_def)
  then have m: "match_section (''['' @ nm @ '']'') = Some nm"
    by (rule match_section_header)
  have t: "takeWhile isspace (''['' @ nm @ '']'') = []" by (simp add: isspace_def)
  show ?thesis
    unfolding read_line_def s t
    using assms m by (simp add: Let_def name_ok_def at_section_def)
qed

lemma read_line_option:
  assumes "key_ok k" "stripped v" "k \<notin> fst ` set kvs"
    and "nm \<noteq> ''DEFAULT''" "nm \<notin> fst ` set (r_sections base)" "good base"
  shows "read_line (k @ '' = '' @ v) (at_section base nm kvs)
           = Inr (at_section base nm (kvs @ [(k, v)]))"
proof -
  let ?w = "(if v = [] then [] else '' '' @ v)"
  let ?val = "k @ '' ='' @ ?w"
  have ck: "clean k" and k: "k \<noteq> []" "\<not> isspace (hd k)" "hd k \<noteq> CHR ''#''" "hd k \<noteq> CHR '';''"
    using assms(1) by (auto simp: key_ok_def clean_def)
  have s: "strip (k @ '' = '' @ v) = ?val"
    by (simp only: strip_key_line[OF ck] rstrip_value[OF assms(2)])
  have nc: "\<not> prefix ''#'' ?val" "\<not> prefix '';'' ?val" "?val \<noteq> []"
    using k by (cases k; simp)+
  have t: "takeWhile isspace (k @ '' = '' @ v) = []" using k by (cases k) simp_all
  have ms: "match_section ?val = None" by (rule match_section_key[OF assms(1)])
  have mo: "match_option ?val = Some (k, v)" by (rule match_option_line[OF assms(1,2)])
  have rk: "rstrip k = k" using rstrip_clean[of k "[]"] ck by (simp add: clean_def)
  have sv: "strip v = v" by (rule strip_stripped[OF assms(2)])
  have ne: "(nm, Some k) \<notin> set (elements_added base)"
    using assms(5,6) by (force simp: good_def)
  have el: "(nm, Some k) \<notin> set (elements_added (at_section base nm kvs))"
    using ne assms(3) by (force simp: at_section_def)
  have ds: "dict_set (map (\<lambda>(k, v). (k, [v])) kvs) k [v] = map (\<lambda>(k, v). (k, [v])) kvs @ [(k, [v])]"
    using assms(3) by (intro dict_set_new) force
  have upd: "map (\<lambda>(n, d). if n = nm then (n, dict_set d k [v]) else (n, d)) (r_sections base) = r_sections base"
    by (rule map_other_sections[OF assms(5)])
  have res: "cursect_update (\<lambda>d. dict_set d k [v])
        ((at_section base nm kvs)\<lparr>indent_level := 0, optname := Some k,
            elements_added := (nm, Some k) # elements_added (at_section base nm kvs)\<rparr>)
      = at_section base nm (kvs @ [(k, v)])"
    using assms(4) by (simp add: cursect_update_def at_section_def ds upd)
  have sn: "sectname (at_section base nm kvs) = Some nm" by (simp add: at_section_def)
  show ?thesis
    unfolding read_line_def s t
    using nc ms mo el res sn k(1) by (simp add: Let_def rk sv)
qed

lemma read_lines_options:
  assumes "nm \<noteq> ''DEFAULT''" "nm \<notin> fst ` set (r_sections base)" "good base"
  shows "pairs_ok (kvs1 @ kvs2) \<Longrightarrow>
         read_lines (map (\<lambda>(k, v). k @ '' = '' @ v) kvs2) (at_section base nm kvs1)
           = Inr (at_section base nm (kvs1 @ kvs2))"
proof (induction kvs2 arbitrary: kvs1)
  case Nil
  then show ?case by simp
next
  case (Cons p kvs2)
  obtain k v where p: "p = (k, v)" by (cases p)
  have ok: "key_ok k" "stripped v" "k \<notin> fst ` set kvs1"
    using Cons.prems p by (auto simp: pairs_ok_def)
  have 1: "read_line (k @ '' = '' @ v) (at_section base nm kvs1)
           = Inr (at_section base nm (kvs1 @ [(k, v)]))"
    by (rule read_line_option[OF ok assms])
  have "pairs_ok ((kvs1 @ [(k, v)]) @ kvs2)" using Cons.prems p by simp
  from Cons.IH[OF this] show ?case using 1 p by simp
qed

lemma join_values_single:
  "list_all (\<lambda>(k, v). key_ok k \<and> stripped v) kvs \<Longrightarrow>
   join_values (map (\<lambda>(k, v). (k, [v])) kvs) = kvs"
proof (induction kvs)
  case Nil
  then show ?case by (simp add: join_values_def)
next
  case (Cons p kvs)
  obtain k v where p: "p = (k, v)" by (cases p)
  have "stripped v" using Cons.prems p by simp
  then have "rstrip v = v"
    using rstrip_clean[of v "[]"] by (auto simp: stripped_def clean_def)
  then show ?case using Cons p by (simp add: join_values_def)
qed

lemma joined_at_section:
  "list_all (\<lambda>(k, v). key_ok k \<and> stripped v) kvs \<Longrightarrow>
   joined (at_section base nm kvs) = joined base @ [(nm, kvs)]"
  by (simp add: joined_def at_section_def join_values_single)

lemma good_at_section: "good base \<Longrightarrow> nm \<noteq> ''DEFAULT'' \<Longrightarrow> good (at_section base nm kvs)"
  by (force simp: good_def at_section_def)

lemma append_value_frame:
  "elements_added (append_value v r) = elements_added r"
  "map fst (r_sections (append_value v r)) = map fst (r_sections r)"
  "sectname r \<noteq> Some ''DEFAULT'' \<Longrightarrow> r_defaults (append_value v r) = r_defaults r"
  by (auto simp: append_value_def cursect_update_def split: option.splits)

lemma read_section_end:
  assumes "good base" "nm \<noteq> ''DEFAULT''" "pairs_ok kvs"
  shows "\<exists>r'. read_line [] (at_section base nm kvs) = Inr r' \<and> good r'
              \<and> joined r' = joined base @ [(nm, kvs)]"
proof -
  let ?r = "at_section base nm kvs"
  have g: "good ?r" by (rule good_at_section[OF assms(1,2)])
  have j: "joined ?r = joined base @ [(nm, kvs)]"
    using assms(3) by (simp add: joined_at_section pairs_ok_def)
  have sn: "sectname ?r \<noteq> Some ''DEFAULT''" using assms(2) by (simp add: at_section_def)
  have "good (append_value [] ?r)"
    using g append_value_frame[where v="[]" and r="?r"] append_value_blank[of ?r] sn
    by (simp add: good_def) (metis image_set)
  moreover have "joined (append_value [] ?r) = joined base @ [(nm, kvs)]"
    using append_value_blank[of ?r] j by simp
  moreover have "blank []" by (simp add: blank_def)
  ultimately show ?thesis using g j by (simp add: read_line_blank)
qed

lemma names_joined: "map fst (joined r) = map fst (r_sections r)"
  by (simp add: joined_def case_prod_beta o_def)

lemma read_section:
  assumes "good base" "name_ok nm" "nm \<notin> fst ` set (r_sections base)" "pairs_ok kvs"
  shows "\<exists>r'. read_lines (section_lines (nm, kvs)) base = Inr r' \<and> good r'
              \<and> joined r' = joined base @ [(nm, kvs)]"
proof -
  have d: "nm \<noteq> ''DEFAULT''" using assms(2) by (simp add: name_ok_def)
  have 1: "read_line (''['' @ nm @ '']'') base = Inr (at_section base nm [])"
    by (rule read_line_header[OF assms(2,3)])
  have 2: "read_lines (map (\<lambda>(k, v). k @ '' = '' @ v) kvs) (at_section base nm [])
           = Inr (at_section base nm kvs)"
    using read_lines_options[OF d assms(3,1), of "[]" kvs] assms(4) by simp
  obtain r' where 3: "read_line [] (at_section base nm kvs) = Inr r'" "good r'"
      "joined r' = joined base @ [(nm, kvs)]"
    using read_section_end[OF assms(1) d assms(4)] by blast
  show ?thesis using 1 2 3 by (auto simp: section_lines_def read_lines_append)
qed

lemma read_sections:
  "good base \<Longrightarrow> sections_ok ss \<Longrightarrow> fst ` set ss \<inter> fst ` set (r_sections base) = {} \<Longrightarrow>
   \<exists>r'. read_lines (concat (map section_lines ss)) base = Inr r' \<and> good r'
        \<and> joined r' = joined base @ ss"
proof (induction ss arbitrary: base)
  case Nil
  then show ?case by simp
next
  case (Cons s ss)
  obtain nm kvs where s: "s = (nm, kvs)" by (cases s)
  have ok: "name_ok nm" "pairs_ok kvs" "nm \<notin> fst ` set (r_sections base)"
    using Cons.prems s by (auto simp: sections_ok_def)
  obtain r1 where r1: "read_lines (section_lines (nm, kvs)) base = Inr r1" "good r1"
      "joined r1 = joined base @ [(nm, kvs)]"
    using read_section[OF Cons.prems(1) ok(1,3,2)] by blast
  have n1: "fst ` set (r_sections r1) = insert nm (fst ` set (r_sections base))"
    using arg_cong[OF r1(3), of "\<lambda>x. set (map fst x)"] by (simp add: names_joined)
  have so: "sections_ok ss" using Cons.prems(2) by (simp add: sections_ok_def)
  have dj: "fst ` set ss \<inter> fst ` set (r_sections r1) = {}"
    using Cons.prems(2,3) s n1 by (auto simp: sections_ok_def)
  obtain r' where r': "read_lines (concat (map section_lines ss)) r1 = Inr r'" "good r'"
      "joined r' = joined r1 @ ss"
    using Cons.IH[OF r1(2) so dj] by blast
  show ?case using r1 r' s by (simp add: read_lines_append)
qed

lemma read_file_lines:
  assumes "sections_ok ss"
  shows "outcome (read_lines (file_text_lines ss) new_reader)
           = Inr \<lparr>ini_defaults = [], ini_sections = ss\<rparr>"
proof -
  have c: "read_line ''# Config.ini File'' new_reader = Inr new_reader"
    by (simp add: read_line_def strip_clean clean_def isspace_def)
  have b: "read_line [] new_reader = Inr new_reader"
    by (simp add: read_line_blank blank_def new_reader_def)
  have g: "good new_reader" by (simp add: good_def new_reader_def)
  obtain r' where r': "read_lines (concat (map section_lines ss)) new_reader = Inr r'" "good r'"
      "joined r' = joined new_reader @ ss"
    using read_sections[OF g assms] by (auto simp: new_reader_def)
  have "joined new_reader = []" by (simp add: joined_def new_reader_def)
  then show ?thesis using c b r'
    by (simp add: file_text_lines_def outcome_def good_def join_values_def)
qed

lemma cp_read_built:
  assumes "sections_ok ss" "lines_ok ss"
  shows "cp_read (strip (join nl (file_text_lines ss)) @ nl)
           = Inr \<lparr>ini_defaults = [], ini_sections = ss\<rparr>"
proof -
  let ?h = "''# Config.ini File''"
  let ?L = "file_text_lines ss"
  obtain rest where L: "?L = ?h # rest" by (simp add: file_text_lines_def)
  have ch: "clean ?h" by (simp add: clean_def isspace_def)
  have nb: "\<not> blank ?h" by (simp add: blank_def isspace_def)
  have rh: "rstrip ?h = ?h" using rstrip_clean[of ?h "[]"] ch by (simp add: clean_def)
  have "tidy (?h # rest) = (if list_all blank rest then [?h] else ?h # tidy rest)"
    using tidy_Cons[OF nb, of rest] by (simp only: rh)
  then obtain ys where T: "tidy ?L = ?h # ys"
    unfolding L by (cases "list_all blank rest") simp_all
  have "lstrip (?h @ (if ys = [] then [] else nl @ join nl ys)) = ?h @ (if ys = [] then [] else nl @ join nl ys)"
    by (rule lstrip_clean) (simp_all add: isspace_def)
  then have st: "strip (join nl ?L) = join nl (tidy ?L)"
    unfolding strip_def rstrip_join T join_Cons[of nl ?h ys] .
  have kv: "no_breaks (k @ '' = '' @ v)" if "no_breaks k" "no_breaks v" for k v
    using that by (simp add: no_breaks_def)
  have sl: "list_all no_breaks (section_lines s)" if "s \<in> set ss" for s
  proof -
    obtain nm kvs where s: "s = (nm, kvs)" by (cases s)
    have "no_breaks nm" "\<forall>(k, v) \<in> set kvs. no_breaks k \<and> no_breaks v"
      using assms(2) that s by (auto simp: lines_ok_def list_all_iff)
    then show ?thesis
      using kv by (auto simp: s section_lines_def list_all_iff no_breaks_def)
  qed
  have "list_all no_breaks ?L"
    using sl by (auto simp: file_text_lines_def list_all_iff no_breaks_def)
  then have nbT: "list_all no_breaks (tidy ?L)" by (rule no_breaks_tidy)
  have ne: "tidy ?L \<noteq> []" using T by simp
  have "file_lines (join nl (tidy ?L) @ nl) = tidy ?L" by (rule file_lines_join[OF ne nbT])
  then show ?thesis
    by (simp add: cp_read_outcome st outcome_tidy read_file_lines[OF assms(1)])
qed

section \<open>The values of the form\<close>

lemma build_eq:
  "build_ini_from_form form_data =
     strip (join nl (file_text_lines (schema_pairs (form_value form_data) default_sections_structure))) @ nl"
  unfolding build_ini_from_form_def file_text_lines_def schema_pairs_def section_lines_def
    form_value_def Let_def nl_def
  by (simp add: o_def)

lemma collect_field_decode:
  "collect_field by_section item =
     (case decode_field item of
        None \<Rightarrow> by_section
      | Some (section, k, value) \<Rightarrow>
          dict_set by_section section
            ((case map_of by_section section of None \<Rightarrow> [] | Some ps \<Rightarrow> ps) @ [(k, value)]))"
  by (simp add: collect_field_def decode_field_def Let_def split: prod.splits option.splits)

lemma lookup_collect:
  "(case map_of (foldl collect_field acc form_data) s of None \<Rightarrow> [] | Some ps \<Rightarrow> ps)
     = (case map_of acc s of None \<Rightarrow> [] | Some ps \<Rightarrow> ps) @ pairs_for s form_data"
proof (induction form_data arbitrary: acc)
  case Nil
  then show ?case by (simp add: pairs_for_def List.map_filter_def)
next
  case (Cons item form_data)
  show ?case
  proof (cases "decode_field item")
    case None
    then show ?thesis
      using Cons.IH[of acc] by (simp add: collect_field_decode pairs_for_def List.map_filter_def)
  next
    case (Some t)
    obtain s' k v where t: "t = (s', k, v)" by (cases t)
    show ?thesis
      using Cons.IH[of "collect_field acc item"] Some t
      by (simp add: collect_field_decode pairs_for_def List.map_filter_def map_of_dict_set)
  qed
qed

lemma form_value_eq:
  "form_value form_data nm k =
     (case map_of (rev (pairs_for nm form_data)) k of None \<Rightarrow> [] | Some x \<Rightarrow> x)"
proof -
  let ?by = "foldl collect_field [] form_data"
  have "map_of (map (\<lambda>(section, pairs). (section, dict_of pairs)) xs) nm
            = map_option dict_of (map_of xs nm)" for xs :: "(string \<times> (string \<times> string) list) list"
    by (induction xs) auto
  then have m: "map_of (map (\<lambda>(section, pairs). (section, dict_of pairs)) ?by) nm
            = map_option dict_of (map_of ?by nm)" .
  have l: "(case map_of ?by nm of None \<Rightarrow> [] | Some ps \<Rightarrow> ps) = pairs_for nm form_data"
    using lookup_collect[of "[]" form_data nm] by simp
  show ?thesis
  proof (cases "map_of ?by nm")
    case None
    then show ?thesis using l by (simp add: form_value_def Let_def m)
  next
    case (Some ps)
    then show ?thesis using l by (simp add: form_value_def Let_def m map_of_dict_of)
  qed
qed

lemma split_once_first:
  "CHR ''|'' \<notin> set a \<Longrightarrow> split_once ''||'' (a @ ''||'' @ b) = Some (a, b)"
  by (induction a) auto

lemma split_once_parts:
  "split_once sep s = Some (a, b) \<Longrightarrow> s = a @ sep @ b"
proof (induction s arbitrary: a b)
  case Nil
  then show ?case by simp
next
  case (Cons c cs)
  show ?case
  proof (cases "prefix sep (c # cs)")
    case True
    then show ?thesis using Cons.prems by (auto simp: prefix_def)
  next
    case False
    then obtain a' where "split_once sep cs = Some (a', b)" "a = c # a'"
      using Cons.prems by auto
    then show ?thesis using Cons.IH by simp
  qed
qed

lemma form_to_section_inverse:
  "CHR ''_'' \<notin> set s \<Longrightarrow> form_to_section (section_to_form s) = s"
  by (induction s) (auto simp: form_to_section_def section_to_form_def replace_def)

lemma section_to_form_inverse:
  "CHR '' '' \<notin> set s \<Longrightarrow> section_to_form (form_to_section s) = s"
  by (induction s) (auto simp: form_to_section_def section_to_form_def replace_def)

lemma decode_canonical:
  assumes "CHR ''|'' \<notin> set nm" "CHR ''_'' \<notin> set nm"
  shows "decode_field (form_field_name (section_to_form nm) k, v) = Some (nm, k, strip v)"
proof -
  have "CHR ''|'' \<notin> set (section_to_form nm)"
    using assms(1) by (auto simp: section_to_form_def replace_def)
  then have "split_once ''||'' (section_to_form nm @ ''||'' @ k) = Some (section_to_form nm, k)"
    by (rule split_once_first)
  then show ?thesis
    using form_to_section_inverse[OF assms(2)]
    by (simp add: decode_field_def form_field_name_def FORM_SEP_def)
qed

lemma decode_no_space:
  assumes "decode_field (n, v) = Some (nm, k, w)" "CHR '' '' \<notin> set n"
  shows "n = form_field_name (section_to_form nm) k \<and> w = strip v"
proof -
  from assms(1) obtain fs where p: "prefix ''v||'' n"
    and sp0: "split_once ''||'' (drop (Suc (Suc (Suc 0))) n) = Some (fs, k)"
    and nm: "nm = form_to_section fs" and w: "w = strip v"
    by (auto simp: decode_field_def FORM_SEP_def split: if_splits option.splits)
  have sp: "split_once ''||'' (drop 3 n) = Some (fs, k)"
    using sp0 by (simp add: numeral_3_eq_3)
  have d: "drop 3 n = fs @ ''||'' @ k" using split_once_parts[OF sp] .
  have n: "n = ''v||'' @ drop 3 n" using p by (auto simp: prefix_def)
  have "set fs \<subseteq> set n" using d n by (metis Un_iff set_append subsetI)
  then have "CHR '' '' \<notin> set fs" using assms(2) by auto
  then have "section_to_form nm = fs" unfolding nm by (rule section_to_form_inverse)
  then show ?thesis using n d w by (simp add: form_field_name_def FORM_SEP_def)
qed

lemma map_of_rev_unique:
  assumes "(k, u) \<in> set xs" "\<forall>w. (k, w) \<in> set xs \<longrightarrow> w = u"
  shows "map_of (rev xs) k = Some u"
proof -
  have "k \<in> fst ` set (rev xs)" using assms(1) by force
  then obtain w where w: "map_of (rev xs) k = Some w"
    by (cases "map_of (rev xs) k") (auto simp: map_of_eq_None_iff)
  then have "(k, w) \<in> set xs" using map_of_SomeD by fastforce
  then show ?thesis using assms(2) w by simp
qed

lemma form_value_submitted:
  assumes "distinct (map fst form_data)"
    and "\<forall>n \<in> fst ` set form_data. CHR '' '' \<notin> set n"
    and "CHR ''|'' \<notin> set nm" "CHR ''_'' \<notin> set nm"
    and "(form_field_name (section_to_form nm) k, v) \<in> set form_data"
  shows "form_value form_data nm k = strip v" "submitted form_data nm k = v"
proof -
  let ?cn = "form_field_name (section_to_form nm) k"
  have dc: "decode_field (?cn, v) = Some (nm, k, strip v)"
    by (rule decode_canonical[OF assms(3,4)])
  have 1: "(k, strip v) \<in> set (pairs_for nm form_data)"
    unfolding pairs_for_def List.map_filter_def using assms(5) dc by force
  have 2: "w = strip v" if "(k, w) \<in> set (pairs_for nm form_data)" for w
  proof -
    from that obtain n v' where i: "(n, v') \<in> set form_data"
      and d: "decode_field (n, v') = Some (nm, k, w)"
      unfolding pairs_for_def List.map_filter_def by auto
    have "CHR '' '' \<notin> set n" using assms(2) i by force
    from decode_no_space[OF d this] have n: "n = ?cn" and w: "w = strip v'" by simp_all
    have "v' = v" using assms(1,5) i n by (metis eq_key_imp_eq_value)
    then show ?thesis using w by simp
  qed
  show "form_value form_data nm k = strip v"
    using map_of_rev_unique[OF 1] 2 by (simp add: form_value_eq)
  show "submitted form_data nm k = v"
    using assms(1,5) by (simp add: submitted_def)
qed

section \<open>Building, then parsing and merging\<close>

lemma registry_ok_default: "registry_ok default_sections_structure"
  by (simp add: registry_ok_def default_sections_structure_def schema_section_def
      schema_option_def name_ok_def key_ok_def clean_def no_breaks_def isspace_def)

lemma normal_default: "normal_schema default_sections_structure"
  by (simp add: normal_schema_def default_sections_structure_def schema_section_def
      schema_option_def)

lemma schema_pairs_ok:
  assumes "wf_schema schema" "registry_ok schema"
    and "\<forall>sect \<in> set schema. \<forall>x \<in> set (options sect).
           stripped (g (name sect) (key x)) \<and> no_breaks (g (name sect) (key x))"
  shows "sections_ok (schema_pairs g schema)" "lines_ok (schema_pairs g schema)"
proof -
  have m: "map fst (schema_pairs g schema) = map name schema"
    by (simp add: schema_pairs_def o_def)
  have k: "map fst (map (\<lambda>x. (key x, g (name sect) (key x))) (options sect)) = map key (options sect)"
    for sect :: cfg_section by (simp add: o_def)
  show "sections_ok (schema_pairs g schema)"
    unfolding sections_ok_def m
    using assms
    by (auto simp: wf_schema_def registry_ok_def schema_pairs_def list_all_iff pairs_ok_def k
        simp del: map_map)
  show "lines_ok (schema_pairs g schema)"
    using assms by (auto simp: lines_ok_def registry_ok_def schema_pairs_def list_all_iff)
qed

lemma parse_config_pairs:
  assumes "cp_read txt = Inr \<lparr>ini_defaults = [], ini_sections = ss\<rparr>" "ss \<noteq> []"
  shows "parse_config (Text txt) = map parsed_section ss"
proof -
  have "cp_items d [] = d" for d by (simp add: cp_items_def)
  then show ?thesis
    using assms by (simp add: parse_config_def parsed_section_def Let_def case_prod_beta)
qed

lemma file_value_parsed:
  assumes "wf_schema schema" "sect \<in> set schema" "x \<in> set (options sect)"
  shows "file_value (map parsed_section (schema_pairs g schema)) (name sect) (key x)
           = Some (strip_inline_comment (g (name sect) (key x)))"
proof -
  let ?P = "map parsed_section (schema_pairs g schema)"
  let ?ps = "parsed_section (name sect, map (\<lambda>x. (key x, g (name sect) (key x))) (options sect))"
  have dn: "distinct (map fst (map (\<lambda>s. (name s, s)) ?P))"
    using assms(1) by (simp add: wf_schema_def o_def schema_pairs_def parsed_section_def)
  have "(name sect, ?ps) \<in> set (map (\<lambda>s. (name s, s)) ?P)"
    using assms(2) by (force simp: schema_pairs_def parsed_section_def)
  from map_of_rev_distinct[OF dn this]
  have 1: "map_of (rev (map (\<lambda>s. (name s, s)) ?P)) (name sect) = Some ?ps" .
  have dk: "distinct (map key (options sect))"
    using assms(1,2) by (simp add: wf_schema_def list_all_iff)
  then have dk': "distinct (map fst (map (\<lambda>x. (key x, val x)) (options ?ps)))"
    by (simp add: parsed_section_def o_def)
  have "(key x, strip_inline_comment (g (name sect) (key x)))
          \<in> set (map (\<lambda>x. (key x, val x)) (options ?ps))"
    using assms(3) by (force simp: parsed_section_def)
  from map_of_rev_distinct[OF dk' this] 1 show ?thesis
    by (simp add: file_value_def)
qed

lemma merged_with_values:
  assumes "wf_schema schema" "normal_schema schema"
  shows "map (merged_section (map parsed_section (schema_pairs g schema))) schema
           = with_values (\<lambda>nm k. strip_inline_comment (g nm k)) schema"
  unfolding with_values_def
proof (rule map_cong[OF refl])
  fix sect assume s: "sect \<in> set schema"
  have n: "sect_form_section sect = section_to_form (name sect)"
    "sect_hint sect = get_section_hint (name sect)"
    "\<And>x. x \<in> set (options sect) \<Longrightarrow> form_section x = section_to_form (name sect)"
    using assms(2) s by (auto simp: normal_schema_def list_all_iff)
  have "map (\<lambda>x. x\<lparr>val := (case file_value (map parsed_section (schema_pairs g schema)) (name sect) (key x) of
                                        Some v \<Rightarrow> v | None \<Rightarrow> val x),
                              form_section := section_to_form (name sect)\<rparr>) (options sect)
      = map (\<lambda>x. x\<lparr>val := strip_inline_comment (g (name sect) (key x))\<rparr>) (options sect)"
    by (rule map_cong[OF refl]) (simp add: file_value_parsed[OF assms(1) s] n(3)[symmetric])
  then show "merged_section (map parsed_section (schema_pairs g schema)) sect
       = sect\<lparr>options := map (\<lambda>x. x\<lparr>val := strip_inline_comment (g (name sect) (key x))\<rparr>) (options sect)\<rparr>"
    using n(1,2) by (simp add: merged_section_def)
qed

lemma form_value_registry:
  assumes "distinct (map fst form_data)"
    and "\<forall>n \<in> fst ` set form_data. CHR '' '' \<notin> set n"
    and "\<forall>sect \<in> set default_sections_structure. \<forall>x \<in> set (options sect).
           \<exists>v. (form_field_name (section_to_form (name sect)) (key x), v) \<in> set form_data
                \<and> no_breaks (strip v)"
    and "sect \<in> set default_sections_structure" "x \<in> set (options sect)"
  shows "form_value form_data (name sect) (key x) = strip (submitted form_data (name sect) (key x))"
    and "no_breaks (strip (submitted form_data (name sect) (key x)))"
proof -
  obtain v where v: "(form_field_name (section_to_form (name sect)) (key x), v) \<in> set form_data"
    "no_breaks (strip v)" using assms(3,4,5) by blast
  have nm: "CHR ''|'' \<notin> set (name sect)" "CHR ''_'' \<notin> set (name sect)"
    using registry_ok_default assms(4) by (auto simp: registry_ok_def list_all_iff)
  note fv = form_value_submitted[OF assms(1,2) nm v(1)]
  show "form_value form_data (name sect) (key x) = strip (submitted form_data (name sect) (key x))"
    by (simp only: fv)
  show "no_breaks (strip (submitted form_data (name sect) (key x)))"
    using v(2) by (simp only: fv)
qed

lemma schema_pairs_cong:
  assumes "\<And>sect x. sect \<in> set D \<Longrightarrow> x \<in> set (options sect) \<Longrightarrow> f (name sect) (key x) = g (name sect) (key x)"
  shows "schema_pairs f D = schema_pairs g D"
  unfolding schema_pairs_def
  by (intro map_cong[OF refl]) (simp add: assms cong: map_cong)

lemma cp_read_build:
  assumes "distinct (map fst form_data)"
    and "\<forall>n \<in> fst ` set form_data. CHR '' '' \<notin> set n"
    and "\<forall>sect \<in> set default_sections_structure. \<forall>x \<in> set (options sect).
           \<exists>v. (form_field_name (section_to_form (name sect)) (key x), v) \<in> set form_data
                \<and> no_breaks (strip v)"
  shows "cp_read (build_ini_from_form form_data)
         = Inr \<lparr>ini_defaults = [],
                ini_sections = schema_pairs (\<lambda>nm k. strip (submitted form_data nm k)) default_sections_structure\<rparr>"
proof -
  let ?D = "default_sections_structure"
  let ?g = "\<lambda>nm k. strip (submitted form_data nm k)"
  have sp: "schema_pairs (form_value form_data) ?D = schema_pairs ?g ?D"
    by (rule schema_pairs_cong) (rule form_value_registry(1)[OF assms])
  have ok: "\<forall>sect \<in> set ?D. \<forall>x \<in> set (options sect).
           stripped (?g (name sect) (key x)) \<and> no_breaks (?g (name sect) (key x))"
    using form_value_registry(2)[OF assms] stripped_strip by blast
  have so: "sections_ok (schema_pairs ?g ?D)" "lines_ok (schema_pairs ?g ?D)"
    using schema_pairs_ok[OF wf_default registry_ok_default ok] by blast+
  show ?thesis
    unfolding build_eq sp by (rule cp_read_built[OF so])
qed

lemma parse_with_schema_built:
  assumes "cp_read txt = Inr \<lparr>ini_defaults = [], ini_sections = schema_pairs g default_sections_structure\<rparr>"
  shows "parse_config_with_schema (Text txt)
           = with_values (\<lambda>nm k. strip_inline_comment (g nm k)) default_sections_structure"
proof -
  let ?D = "default_sections_structure"
  have ne: "schema_pairs g ?D \<noteq> []" using default_not_empty by (simp add: schema_pairs_def)
  have pc: "parse_config (Text txt) = map parsed_section (schema_pairs g ?D)"
    by (rule parse_config_pairs[OF assms ne])
  have l: "list_all (\<lambda>sect. distinct (map key (options sect))) ?D"
    using wf_default by (simp add: wf_schema_def)
  have m: "merge_parsed_with_schema (map parsed_section (schema_pairs g ?D)) ?D
        = with_values (\<lambda>nm k. strip_inline_comment (g nm k)) ?D"
    by (simp only: merge_parsed_with_schema_eq[OF l] merged_with_values[OF wf_default normal_default])
  have t: "Text txt \<noteq> Missing" by simp
  have p: "map parsed_section (schema_pairs g ?D) \<noteq> []" using ne by simp
  show ?thesis
    unfolding parse_config_with_schema_def pc Let_def m
    by (simp only: t p if_False)
qed

lemma roundtrip_general:
  assumes "distinct (map fst form_data)"
    and "\<forall>n \<in> fst ` set form_data. CHR '' '' \<notin> set n"
    and "\<forall>sect \<in> set default_sections_structure. \<forall>x \<in> set (options sect).
           \<exists>v. (form_field_name (section_to_form (name sect)) (key x), v) \<in> set form_data
                \<and> no_breaks (strip v)"
  shows "parse_config_with_schema (Text (build_ini_from_form form_data))
           = with_values (\<lambda>nm k. strip_inline_comment (strip (submitted form_data nm k)))
               default_sections_structure"
  by (rule parse_with_schema_built[OF cp_read_build[OF assms]])

lemma registry_names:
  "map fst (registry_form f) =
     concat (map (\<lambda>sect. map (\<lambda>x. form_field_name (sect_form_section sect) (key x)) (options sect))
               default_sections_structure)"
  by (simp add: registry_form_def map_concat o_def)

lemma registry_names_distinct: "distinct (map fst (registry_form f))"
  unfolding registry_names
  by (simp add: default_sections_structure_def schema_section_def schema_option_def
      form_field_name_def FORM_SEP_def section_to_form_def replace_def)

lemma registry_names_no_space: "\<forall>n \<in> fst ` set (registry_form f). CHR '' '' \<notin> set n"
proof -
  have "\<forall>n \<in> set (map fst (registry_form f)). CHR '' '' \<notin> set n"
    unfolding registry_names
    by (simp add: default_sections_structure_def schema_section_def schema_option_def
      form_field_name_def FORM_SEP_def section_to_form_def replace_def)
  then show ?thesis by simp
qed

lemma registry_form_member:
  assumes "sect \<in> set default_sections_structure" "x \<in> set (options sect)"
  shows "(form_field_name (section_to_form (name sect)) (key x), f (name sect) (key x))
           \<in> set (registry_form f)"
proof -
  have "sect_form_section sect = section_to_form (name sect)"
    using normal_default assms(1) by (simp add: normal_schema_def list_all_iff)
  then show ?thesis using assms by (force simp: registry_form_def)
qed

lemma submitted_registry_form:
  assumes "sect \<in> set default_sections_structure" "x \<in> set (options sect)"
  shows "submitted (registry_form f) (name sect) (key x) = f (name sect) (key x)"
  using registry_form_member[OF assms, of f] registry_names_distinct[of f]
  by (simp add: submitted_def)

lemma file_value_with_values:
  assumes "wf_schema schema" "sect \<in> set schema" "x \<in> set (options sect)"
  shows "file_value (with_values h schema) (name sect) (key x) = Some (h (name sect) (key x))"
proof -
  let ?W = "with_values h schema"
  let ?ws = "sect\<lparr>options := map (\<lambda>x. x\<lparr>val := h (name sect) (key x)\<rparr>) (options sect)\<rparr>"
  have dn: "distinct (map fst (map (\<lambda>s. (name s, s)) ?W))"
    using assms(1) by (simp add: wf_schema_def o_def with_values_def)
  have "(name sect, ?ws) \<in> set (map (\<lambda>s. (name s, s)) ?W)"
    using assms(2) by (force simp: with_values_def)
  from map_of_rev_distinct[OF dn this]
  have 1: "map_of (rev (map (\<lambda>s. (name s, s)) ?W)) (name sect) = Some ?ws" .
  have dk: "distinct (map key (options sect))"
    using assms(1,2) by (simp add: wf_schema_def list_all_iff)
  then have dk': "distinct (map fst (map (\<lambda>x. (key x, val x)) (options ?ws)))"
    by (simp add: o_def)
  have "(key x, h (name sect) (key x)) \<in> set (map (\<lambda>x. (key x, val x)) (options ?ws))"
    using assms(3) by force
  from map_of_rev_distinct[OF dk' this] 1 show ?thesis
    by (simp add: file_value_def)
qed

lemma with_values_cong:
  assumes "\<And>sect x. sect \<in> set schema \<Longrightarrow> x \<in> set (options sect) \<Longrightarrow>
             f (name sect) (key x) = g (name sect) (key x)"
  shows "with_values f schema = with_values g schema"
  unfolding with_values_def
  by (intro map_cong[OF refl]) (simp add: assms cong: map_cong)

lemma apple_album:
  "default_sections_structure ! 3 \<in> set default_sections_structure
   \<and> options (default_sections_structure ! 3) ! 2 \<in> set (options (default_sections_structure ! 3))
   \<and> name (default_sections_structure ! 3) = ''Apple Photos''
   \<and> key (options (default_sections_structure ! 3) ! 2) = ''album''"
  by (simp add: default_sections_structure_def schema_section_def schema_option_def)

lemma no_breaks_supplied:
  assumes "\<forall>sect \<in> set default_sections_structure. \<forall>x \<in> set (options sect).
           \<exists>v. (form_field_name (section_to_form (name sect)) (key x), v) \<in> set form_data
                \<and> CHR ''#'' \<notin> set v
                \<and> CHR 0x0A \<notin> set (strip v) \<and> CHR 0x0D \<notin> set (strip v)"
  shows "\<forall>sect \<in> set default_sections_structure. \<forall>x \<in> set (options sect).
           \<exists>v. (form_field_name (section_to_form (name sect)) (key x), v) \<in> set form_data
                \<and> no_breaks (strip v)"
proof (intro ballI)
  fix sect x
  assume a: "sect \<in> set default_sections_structure" "x \<in> set (options sect)"
  from assms[rule_format, OF a] obtain v where
    "(form_field_name (section_to_form (name sect)) (key x), v) \<in> set form_data"
    "CHR 0x0A \<notin> set (strip v)" "CHR 0x0D \<notin> set (strip v)"
    by (elim exE conjE) (rule that; assumption)
  then show "\<exists>v. (form_field_name (section_to_form (name sect)) (key x), v) \<in> set form_data
                \<and> no_breaks (strip v)"
    unfolding no_breaks_def by - (intro exI[of _ v] conjI; assumption)
qed

lemma no_hash_supplied:
  assumes "distinct (map fst form_data)"
   and "\<forall>sect \<in> set default_sections_structure. \<forall>x \<in> set (options sect).
           \<exists>v. (form_field_name (section_to_form (name sect)) (key x), v) \<in> set form_data
                \<and> CHR ''#'' \<notin> set v
                \<and> CHR 0x0A \<notin> set (strip v) \<and> CHR 0x0D \<notin> set (strip v)"
   and a: "sect \<in> set default_sections_structure" "x \<in> set (options sect)"
  shows "strip_inline_comment (strip (submitted form_data (name sect) (key x)))
     = strip (submitted form_data (name sect) (key x))"
proof -
  from assms(2)[rule_format, OF a]
  obtain v where v: "(form_field_name (section_to_form (name sect)) (key x), v) \<in> set form_data"
      "CHR ''#'' \<notin> set v"
    by (elim exE conjE) (rule that; assumption)
  have "map_of form_data (form_field_name (section_to_form (name sect)) (key x)) = Some v"
    using assms(1) v(1) by (rule map_of_is_SomeI)
  then have s: "submitted form_data (name sect) (key x) = v"
    unfolding submitted_def by simp
  show ?thesis unfolding s by (rule strip_inline_comment_no_hash[OF v(2)])
qed

lemma submitted_at:
  assumes "sect \<in> set default_sections_structure" "x \<in> set (options sect)"
    "name sect = nm" "key x = k"
  shows "submitted (registry_form f) nm k = f nm k"
  using submitted_registry_form[OF assms(1,2), of f] unfolding assms(3,4) .

lemma file_value_at:
  assumes "sect \<in> set default_sections_structure" "x \<in> set (options sect)"
    "name sect = nm" "key x = k"
  shows "file_value (with_values h default_sections_structure) nm k = Some (h nm k)"
  using file_value_with_values[OF wf_default assms(1,2), of h] unfolding assms(3,4) .

lemma registry_form_supplied:
  "list_all (\<lambda>sect. list_all (\<lambda>x. map_of (registry_form f)
        (form_field_name (section_to_form (name sect)) (key x)) = Some (f (name sect) (key x)))
      (options sect)) default_sections_structure"
  unfolding list_all_iff
proof (intro ballI)
  fix sect x
  assume a: "sect \<in> set default_sections_structure" "x \<in> set (options sect)"
  show "map_of (registry_form f) (form_field_name (section_to_form (name sect)) (key x))
          = Some (f (name sect) (key x))"
    using registry_names_distinct[of f] registry_form_member[OF a, of f] by (rule map_of_is_SomeI)
qed

lemma plain_values_ok:
  "CHR ''#'' \<notin> set (plain_values nm k) \<and> CHR 0x0A \<notin> set (plain_values nm k)
   \<and> CHR 0x0D \<notin> set (plain_values nm k)"
  by (simp add: plain_values_def)

lemma strip_summer: "strip ''  Summer 2024 '' = ''Summer 2024''"
  by (simp add: strip_def lstrip_def rstrip_def isspace_def)

lemma hash_values_ok:
  "CHR 0x0A \<notin> set (hash_values nm k) \<and> CHR 0x0D \<notin> set (hash_values nm k)"
  by (simp add: hash_values_def)

lemma strip_hash: "strip ''a#b'' = ''a#b''"
  by (simp add: strip_def lstrip_def rstrip_def isspace_def)

lemma strip_inline_comment_hash: "strip_inline_comment ''a#b'' = ''a''"
  by (simp add: strip_inline_comment_def str_find_def strip_def lstrip_def rstrip_def isspace_def)

lemma hash_value_cut:
  "submitted (registry_form hash_values) ''Apple Photos'' ''album'' = ''a#b''
   \<and> strip ''a#b'' = ''a#b''
   \<and> file_value (parse_config_with_schema (Text (build_ini_from_form (registry_form hash_values))))
         ''Apple Photos'' ''album'' = Some ''a''"
proof -
  let ?F = "registry_form hash_values"
  let ?f = "\<lambda>nm k. strip_inline_comment (strip (submitted ?F nm k))"
  have 1: "distinct (map fst ?F)" by (rule registry_names_distinct)
  have 2: "\<forall>n \<in> fst ` set ?F. CHR '' '' \<notin> set n" by (rule registry_names_no_space)
  have 3: "\<forall>sect \<in> set default_sections_structure. \<forall>x \<in> set (options sect).
           \<exists>v. (form_field_name (section_to_form (name sect)) (key x), v) \<in> set ?F
                \<and> no_breaks (strip v)"
  proof (intro ballI)
    fix sect x
    assume a: "sect \<in> set default_sections_structure" "x \<in> set (options sect)"
    let ?v = "hash_values (name sect) (key x)"
    have nb: "no_breaks (strip ?v)"
      unfolding no_breaks_def
      by (intro conjI not_in_strip hash_values_ok[THEN conjunct1] hash_values_ok[THEN conjunct2])
    show "\<exists>v. (form_field_name (section_to_form (name sect)) (key x), v) \<in> set ?F
                \<and> no_breaks (strip v)"
      by (intro exI[of _ ?v] conjI registry_form_member[OF a] nb)
  qed
  note r = roundtrip_general [OF 1 2 3]
  note ap = apple_album[THEN conjunct1] apple_album[THEN conjunct2, THEN conjunct1]
    apple_album[THEN conjunct2, THEN conjunct2, THEN conjunct1]
    apple_album[THEN conjunct2, THEN conjunct2, THEN conjunct2]
  have hv: "hash_values ''Apple Photos'' ''album'' = ''a#b''"
    by (simp add: hash_values_def)
  have s: "submitted ?F ''Apple Photos'' ''album'' = ''a#b''"
    unfolding submitted_at[OF ap, of hash_values] by (rule hv)
  have fv: "file_value (with_values ?f default_sections_structure) ''Apple Photos'' ''album''
      = Some ''a''"
    unfolding file_value_at[OF ap, of ?f] s strip_hash strip_inline_comment_hash by (rule refl)
  have fv': "file_value (parse_config_with_schema (Text (build_ini_from_form ?F)))
         ''Apple Photos'' ''album'' = Some ''a''"
    unfolding r by (rule fv)
  show ?thesis
    by (intro conjI s strip_hash fv')
qed

section \<open>A line break in a value\<close>

lemma join_break:
  "join nl (xs @ (a @ nl @ b) # ys) = join nl (xs @ a # b # ys)"
proof (induction xs rule: join.induct[where ?a0.0 = nl])
  case 1
  show ?case by (cases ys) simp_all
next
  case (2 x)
  show ?case by (cases ys) simp_all
next
  case (3 x y ys')
  then show ?case by simp
qed

lemma cp_read_lines:
  assumes L: "L = ''# Config.ini File'' # rest" and nbL: "list_all no_breaks L"
  shows "cp_read (strip (join nl L) @ nl) = outcome (read_lines L new_reader)"
proof -
  let ?h = "''# Config.ini File''"
  have ch: "clean ?h" by (simp add: clean_def isspace_def)
  have nb: "\<not> blank ?h" by (simp add: blank_def isspace_def)
  have rh: "rstrip ?h = ?h" using rstrip_clean[of ?h "[]"] ch by (simp add: clean_def)
  have "tidy (?h # rest) = (if list_all blank rest then [?h] else ?h # tidy rest)"
    using tidy_Cons[OF nb, of rest] by (simp only: rh)
  then obtain ys where T: "tidy L = ?h # ys"
    unfolding L by (cases "list_all blank rest") simp_all
  have "lstrip (?h @ (if ys = [] then [] else nl @ join nl ys)) = ?h @ (if ys = [] then [] else nl @ join nl ys)"
    by (rule lstrip_clean) (simp_all add: isspace_def)
  then have st: "strip (join nl L) = join nl (tidy L)"
    unfolding strip_def rstrip_join T join_Cons[of nl ?h ys] .
  have nbT: "list_all no_breaks (tidy L)" using nbL by (rule no_breaks_tidy)
  have ne: "tidy L \<noteq> []" using T by simp
  have "file_lines (join nl (tidy L) @ nl) = tidy L" by (rule file_lines_join[OF ne nbT])
  then show ?thesis
    by (simp add: cp_read_outcome st outcome_tidy)
qed

lemma read_header_lines:
  assumes "sections_ok ss"
  shows "\<exists>r1. read_lines (file_text_lines ss) new_reader = Inr r1 \<and> good r1 \<and> joined r1 = ss"
proof -
  have c: "read_line ''# Config.ini File'' new_reader = Inr new_reader"
    by (simp add: read_line_def strip_clean clean_def isspace_def)
  have b: "read_line [] new_reader = Inr new_reader"
    by (simp add: read_line_blank blank_def new_reader_def)
  have g: "good new_reader" by (simp add: good_def new_reader_def)
  obtain r' where r': "read_lines (concat (map section_lines ss)) new_reader = Inr r'" "good r'"
      "joined r' = joined new_reader @ ss"
    using read_sections[OF g assms] by (auto simp: new_reader_def)
  have "joined new_reader = []" by (simp add: joined_def new_reader_def)
  then show ?thesis using c b r'
    by (simp add: file_text_lines_def)
qed

lemma parse_errors_append_value: "parse_errors (append_value v r) = parse_errors r"
  by (simp add: append_value_def cursect_update_def split: option.splits)

lemma read_stray_line:
  assumes "good base" "name_ok nm" "nm \<notin> fst ` set (r_sections base)"
  shows "outcome (read_lines [''['' @ nm @ '']'', ''timezone = a'', ''b'', []] base) = Inl ParsingError"
proof -
  have d: "nm \<noteq> ''DEFAULT''" using assms(2) by (simp add: name_ok_def)
  have 1: "read_line (''['' @ nm @ '']'') base = Inr (at_section base nm [])"
    by (rule read_line_header[OF assms(2,3)])
  have k: "key_ok ''timezone''" by (simp add: key_ok_def clean_def isspace_def)
  have v: "stripped ''a''" by (simp add: stripped_def clean_def isspace_def)
  have 2: "read_line (''timezone'' @ '' = '' @ ''a'') (at_section base nm [])
        = Inr (at_section base nm ([] @ [(''timezone'', ''a'')]))"
    by (rule read_line_option[OF k v _ d assms(3,1)]) simp
  let ?r2 = "at_section base nm [(''timezone'', ''a'')]"
  have s: "strip ''b'' = ''b''" by (simp add: strip_def lstrip_def rstrip_def isspace_def)
  have 3: "read_line ''b'' ?r2 = Inr (?r2\<lparr>indent_level := 0, parse_errors := True\<rparr>)"
    unfolding read_line_def s
    by (simp add: at_section_def match_section_def match_option_def isspace_def)
  let ?r3 = "?r2\<lparr>indent_level := 0, parse_errors := True\<rparr>"
  have b: "blank []" by (simp add: blank_def)
  obtain r4 where 4: "read_line [] ?r3 = Inr r4" "parse_errors r4"
    unfolding read_line_blank[OF b] by (simp add: parse_errors_append_value)
  show ?thesis using 1 2 3 4 by (simp add: outcome_def)
qed

lemma no_breaks_file_text_lines:
  assumes "lines_ok ss"
  shows "list_all no_breaks (file_text_lines ss)"
proof -
  have kv: "no_breaks (k @ '' = '' @ v)" if "no_breaks k" "no_breaks v" for k v
    using that by (simp add: no_breaks_def)
  have sl: "list_all no_breaks (section_lines s)" if "s \<in> set ss" for s
  proof -
    obtain nm kvs where s: "s = (nm, kvs)" by (cases s)
    have "no_breaks nm" "\<forall>(k, v) \<in> set kvs. no_breaks k \<and> no_breaks v"
      using assms that s by (auto simp: lines_ok_def list_all_iff)
    then show ?thesis
      using kv by (auto simp: s section_lines_def list_all_iff no_breaks_def)
  qed
  show ?thesis
    using sl by (auto simp: file_text_lines_def list_all_iff no_breaks_def)
qed

lemma default_last:
  "default_sections_structure = butlast default_sections_structure @ [last default_sections_structure]"
  "name (last default_sections_structure) = ''TimeZone''"
  "map key (options (last default_sections_structure)) = [''timezone'']"
  by (simp_all add: default_sections_structure_def schema_section_def schema_option_def)

lemma schema_pairs_snoc:
  assumes "map key (options tz) = [k]"
  shows "schema_pairs g (D0 @ [tz]) = schema_pairs g D0 @ [(name tz, [(k, g (name tz) k)])]"
proof -
  have "map (\<lambda>x. (key x, g (name tz) (key x))) (options tz)
        = map (\<lambda>k. (k, g (name tz) k)) (map key (options tz))"
    by (simp add: o_def)
  then have "map (\<lambda>x. (key x, g (name tz) (key x))) (options tz) = [(k, g (name tz) k)]"
    unfolding assms by simp
  then show ?thesis by (simp add: schema_pairs_def)
qed

lemma file_text_lines_snoc:
  "file_text_lines (ss @ [(nm, [(k, v)])])
     = file_text_lines ss @ [''['' @ nm @ '']'', k @ '' = '' @ v, []]"
  by (simp add: file_text_lines_def section_lines_def)

lemma strip_break: "strip [CHR ''a'', CHR 0x0A, CHR ''b''] = [CHR ''a'', CHR 0x0A, CHR ''b'']"
  by (simp add: strip_def lstrip_def rstrip_def isspace_def)

lemma break_values_calm:
  assumes "nm \<noteq> ''TimeZone''"
  shows "no_breaks (strip (break_values nm k))"
proof -
  have "CHR 0x0A \<notin> set (break_values nm k)" "CHR 0x0D \<notin> set (break_values nm k)"
    using assms by (simp_all add: break_values_def)
  then show ?thesis unfolding no_breaks_def by (intro conjI not_in_strip)
qed

lemma parse_with_schema_unreadable:
  assumes "cp_read txt = Inl e"
  shows "parse_config_with_schema (Text txt) = default_sections_structure"
proof -
  have "parse_config (Text txt) = default_sections_structure"
    using assms by (simp add: parse_config_def)
  then show ?thesis
    by (simp add: parse_config_with_schema_def default_not_empty merge_default_default)
qed

lemma form_value_registry_form:
  assumes "sect \<in> set default_sections_structure" "x \<in> set (options sect)"
  shows "form_value (registry_form f) (name sect) (key x) = strip (f (name sect) (key x))"
proof -
  have nm: "CHR ''|'' \<notin> set (name sect)" "CHR ''_'' \<notin> set (name sect)"
    using registry_ok_default assms(1) by (auto simp: registry_ok_def list_all_iff)
  show ?thesis
    by (rule form_value_submitted(1)[OF registry_names_distinct registry_names_no_space nm
          registry_form_member[OF assms]])
qed

lemma cp_read_break:
  "cp_read (build_ini_from_form (registry_form break_values)) = Inl ParsingError"
proof -
  let ?D = "default_sections_structure"
  let ?F = "registry_form break_values"
  let ?g = "\<lambda>nm k. strip (break_values nm k)"
  define D0 where "D0 = butlast ?D"
  define tz where "tz = last ?D"
  have D: "?D = D0 @ [tz]" unfolding D0_def tz_def by (rule default_last(1))
  have tzn: "name tz = ''TimeZone''" unfolding tz_def by (rule default_last(2))
  have tzk: "map key (options tz) = [''timezone'']" unfolding tz_def by (rule default_last(3))
  have wf: "wf_schema (D0 @ [tz])" using wf_default unfolding D .
  have ro: "registry_ok (D0 @ [tz])" using registry_ok_default unfolding D .
  have wf0: "wf_schema D0" using wf by (simp add: wf_schema_def)
  have ro0: "registry_ok D0" using ro by (simp add: registry_ok_def)
  have nin: "''TimeZone'' \<notin> set (map name D0)"
    using wf tzn by (simp add: wf_schema_def)
  have sp: "schema_pairs (form_value ?F) ?D = schema_pairs ?g ?D"
    by (rule schema_pairs_cong) (rule form_value_registry_form)
  have ok: "\<forall>sect \<in> set D0. \<forall>x \<in> set (options sect).
           stripped (?g (name sect) (key x)) \<and> no_breaks (?g (name sect) (key x))"
  proof (intro ballI conjI)
    fix sect x assume a: "sect \<in> set D0" "x \<in> set (options sect)"
    show "stripped (?g (name sect) (key x))" by (rule stripped_strip)
    have "name sect \<in> set (map name D0)" using a(1) by simp
    then have "name sect \<noteq> ''TimeZone''" using nin by metis
    then show "no_breaks (?g (name sect) (key x))" by (rule break_values_calm)
  qed
  let ?ss0 = "schema_pairs ?g D0"
  have so: "sections_ok ?ss0" and lo: "lines_ok ?ss0"
    using schema_pairs_ok[OF wf0 ro0 ok] by blast+
  have bv: "?g ''TimeZone'' ''timezone'' = ''a'' @ nl @ ''b''"
    by (simp add: break_values_def strip_break nl_def)
  have ss: "schema_pairs ?g ?D = ?ss0 @ [(''TimeZone'', [(''timezone'', ''a'' @ nl @ ''b'')])]"
    unfolding D schema_pairs_snoc[OF tzk] tzn bv by (rule refl)
  let ?L0 = "file_text_lines ?ss0"
  let ?L' = "(?L0 @ [''[TimeZone]'']) @ ''timezone = a'' # ''b'' # [[]]"
  have j: "join nl (file_text_lines (schema_pairs ?g ?D)) = join nl ?L'"
  proof -
    have e: "file_text_lines (schema_pairs ?g ?D)
        = (?L0 @ [''[TimeZone]'']) @ (''timezone = a'' @ nl @ ''b'') # [[]]"
      unfolding ss file_text_lines_snoc by simp
    show ?thesis unfolding e by (rule join_break)
  qed
  obtain rest where L: "?L' = ''# Config.ini File'' # rest"
    by (simp add: file_text_lines_def)
  have nb0: "list_all no_breaks ?L0" using lo by (rule no_breaks_file_text_lines)
  have nbL: "list_all no_breaks ?L'"
    using nb0 by (simp add: no_breaks_def)
  have b: "build_ini_from_form ?F = strip (join nl ?L') @ nl"
    unfolding build_eq sp j by (rule refl)
  obtain r1 where r1: "read_lines ?L0 new_reader = Inr r1" "good r1" "joined r1 = ?ss0"
    using read_header_lines[OF so] by blast
  have "map fst (r_sections r1) = map name D0"
    using arg_cong[OF r1(3), of "map fst"] unfolding names_joined
    by (simp add: schema_pairs_def o_def)
  then have fresh: "''TimeZone'' \<notin> fst ` set (r_sections r1)"
    using nin by (metis set_map)
  have no: "name_ok ''TimeZone''" by (simp add: name_ok_def)
  have "read_lines ?L' new_reader
      = read_lines [''['' @ ''TimeZone'' @ '']'', ''timezone = a'', ''b'', []] r1"
    using r1(1) by (simp add: read_lines_append)
  then have "outcome (read_lines ?L' new_reader) = Inl ParsingError"
    using read_stray_line[OF r1(2) no fresh] by simp
  then show ?thesis
    unfolding b cp_read_lines[OF L nbL] .
qed

lemma break_value_lost:
  "parse_config_with_schema (Text (build_ini_from_form (registry_form break_values)))
     = default_sections_structure"
  by (rule parse_with_schema_unreadable[OF cp_read_break])

lemma timezone_option:
  "default_sections_structure ! 5 \<in> set default_sections_structure
   \<and> options (default_sections_structure ! 5) ! 0 \<in> set (options (default_sections_structure ! 5))
   \<and> name (default_sections_structure ! 5) = ''TimeZone''
   \<and> key (options (default_sections_structure ! 5) ! 0) = ''timezone''"
  by (simp add: default_sections_structure_def schema_section_def schema_option_def)

lemma break_values_submitted:
  "submitted (registry_form break_values) ''TimeZone'' ''timezone'' = [CHR ''a'', CHR 0x0A, CHR ''b'']"
  "submitted (registry_form break_values) ''Apple Photos'' ''album'' = ''Summer 2024''"
proof -
  note tz = timezone_option[THEN conjunct1] timezone_option[THEN conjunct2, THEN conjunct1]
    timezone_option[THEN conjunct2, THEN conjunct2, THEN conjunct1]
    timezone_option[THEN conjunct2, THEN conjunct2, THEN conjunct2]
  note ap = apple_album[THEN conjunct1] apple_album[THEN conjunct2, THEN conjunct1]
    apple_album[THEN conjunct2, THEN conjunct2, THEN conjunct1]
    apple_album[THEN conjunct2, THEN conjunct2, THEN conjunct2]
  have 1: "break_values ''TimeZone'' ''timezone'' = [CHR ''a'', CHR 0x0A, CHR ''b'']"
    by (simp add: break_values_def)
  have 2: "break_values ''Apple Photos'' ''album'' = ''Summer 2024''"
    by (simp add: break_values_def)
  show "submitted (registry_form break_values) ''TimeZone'' ''timezone'' = [CHR ''a'', CHR 0x0A, CHR ''b'']"
    unfolding submitted_at[OF tz, of break_values] by (rule 1)
  show "submitted (registry_form break_values) ''Apple Photos'' ''album'' = ''Summer 2024''"
    unfolding submitted_at[OF ap, of break_values] by (rule 2)
qed

lemma strip_summer_2024: "strip ''Summer 2024'' = ''Summer 2024''"
  by (simp add: strip_def lstrip_def rstrip_def isspace_def)

section \<open>Two fields for one option\<close>

lemma pairs_for_snoc:
  "pairs_for s (F @ [item]) =
     pairs_for s F @ (case decode_field item of
                        None \<Rightarrow> []
                      | Some (s', k, v) \<Rightarrow> if s' = s then [(k, v)] else [])"
  by (simp add: pairs_for_def List.map_filter_def split: option.splits)

lemma decode_alias:
  "decode_field (''v||Apple Photos||album'', ''x'') = Some (''Apple Photos'', ''album'', ''x'')"
  by (simp add: decode_field_def FORM_SEP_def form_to_section_def replace_def
      strip_def lstrip_def rstrip_def isspace_def)

lemma form_value_alias:
  "form_value alias_form nm k =
     (if nm = ''Apple Photos'' \<and> k = ''album'' then ''x''
      else form_value (registry_form plain_values) nm k)"
  unfolding form_value_eq alias_form_def pairs_for_snoc decode_alias
  by simp

lemma form_value_alias_registry:
  assumes "sect \<in> set default_sections_structure" "x \<in> set (options sect)"
  shows "form_value alias_form (name sect) (key x) = alias_values (name sect) (key x)"
  unfolding form_value_alias alias_values_def form_value_registry_form[OF assms] by (rule refl)

lemma alias_values_ok: "stripped (alias_values nm k) \<and> no_breaks (alias_values nm k)"
proof -
  have x: "stripped ''x''" "no_breaks ''x''"
    by (simp_all add: stripped_def clean_def no_breaks_def isspace_def)
  have "no_breaks (strip (plain_values nm k))"
    unfolding no_breaks_def
    by (intro conjI not_in_strip plain_values_ok[THEN conjunct2, THEN conjunct1]
        plain_values_ok[THEN conjunct2, THEN conjunct2])
  then show ?thesis using x stripped_strip[of "plain_values nm k"]
    by (simp add: alias_values_def)
qed

lemma alias_roundtrip:
  "parse_config_with_schema (Text (build_ini_from_form alias_form))
     = with_values (\<lambda>nm k. strip_inline_comment (alias_values nm k)) default_sections_structure"
proof -
  let ?D = "default_sections_structure"
  have sp: "schema_pairs (form_value alias_form) ?D = schema_pairs alias_values ?D"
    by (rule schema_pairs_cong) (rule form_value_alias_registry)
  have ok: "\<forall>sect \<in> set ?D. \<forall>x \<in> set (options sect).
           stripped (alias_values (name sect) (key x)) \<and> no_breaks (alias_values (name sect) (key x))"
    by (intro ballI alias_values_ok)
  have so: "sections_ok (schema_pairs alias_values ?D)" "lines_ok (schema_pairs alias_values ?D)"
    using schema_pairs_ok[OF wf_default registry_ok_default ok] by blast+
  have "cp_read (build_ini_from_form alias_form)
      = Inr \<lparr>ini_defaults = [], ini_sections = schema_pairs alias_values ?D\<rparr>"
    unfolding build_eq sp by (rule cp_read_built[OF so])
  then show ?thesis by (rule parse_with_schema_built)
qed

lemma alias_form_facts:
  "distinct (map fst alias_form)"
  "submitted alias_form ''Apple Photos'' ''album'' = ''  Summer 2024 ''"
  "map_of alias_form ''v||Apple Photos||album'' = Some ''x''"
proof -
  let ?F = "registry_form plain_values"
  let ?a = "''v||Apple Photos||album''"
  have sp: "CHR '' '' \<in> set ?a" by simp
  have nin: "?a \<notin> fst ` set ?F" using registry_names_no_space[of plain_values] sp by blast
  then have nin': "?a \<notin> set (map fst ?F)" by simp
  show "distinct (map fst alias_form)"
    using registry_names_distinct[of plain_values] nin' by (simp add: alias_form_def)
  note ap = apple_album[THEN conjunct1] apple_album[THEN conjunct2, THEN conjunct1]
    apple_album[THEN conjunct2, THEN conjunct2, THEN conjunct1]
    apple_album[THEN conjunct2, THEN conjunct2, THEN conjunct2]
  have pv: "plain_values ''Apple Photos'' ''album'' = ''  Summer 2024 ''"
    by (simp add: plain_values_def)
  have s: "submitted ?F ''Apple Photos'' ''album'' = ''  Summer 2024 ''"
    unfolding submitted_at[OF ap, of plain_values] by (rule pv)
  have c: "form_field_name (section_to_form ''Apple Photos'') ''album'' \<noteq> ?a"
    by (simp add: form_field_name_def FORM_SEP_def section_to_form_def replace_def)
  have "submitted alias_form ''Apple Photos'' ''album'' = submitted ?F ''Apple Photos'' ''album''"
    using c by (simp add: submitted_def alias_form_def map_add_def split: option.splits)
  then show "submitted alias_form ''Apple Photos'' ''album'' = ''  Summer 2024 ''"
    unfolding s .
  have "map_of ?F ?a = None" using nin by (simp add: map_of_eq_None_iff)
  then show "map_of alias_form ?a = Some ''x''"
    by (simp add: alias_form_def map_add_def)
qed

lemma alias_album:
  "file_value (parse_config_with_schema (Text (build_ini_from_form alias_form)))
     ''Apple Photos'' ''album'' = Some ''x''"
proof -
  note ap = apple_album[THEN conjunct1] apple_album[THEN conjunct2, THEN conjunct1]
    apple_album[THEN conjunct2, THEN conjunct2, THEN conjunct1]
    apple_album[THEN conjunct2, THEN conjunct2, THEN conjunct2]
  have "strip_inline_comment (alias_values ''Apple Photos'' ''album'') = ''x''"
    by (simp add: alias_values_def strip_inline_comment_def str_find_def strip_def lstrip_def
        rstrip_def isspace_def)
  then show ?thesis
    unfolding alias_roundtrip
      file_value_at[OF ap, of "\<lambda>nm k. strip_inline_comment (alias_values nm k)"]
    by simp
qed

text \<open>
  C3, the claim as stated fails in three ways. Each payload has a field for every
  option of the registry. In the first the album of Apple Photos is submitted as
  \<open>a#b\<close>, which trimming leaves as it is; built, parsed and merged, the album is \<open>a\<close>:
  \<open>_strip_inline_comment\<close> cuts the value at the \<open>#\<close>. In the second the time zone is
  submitted as \<open>a\<close>, a line break, \<open>b\<close>, and the album as \<open>Summer 2024\<close>; the file
  built has the line \<open>b\<close>, which \<open>ConfigParser\<close> refuses, and parsing falls back to the
  defaults: the time zone is \<open>US/Central\<close> and the album \<open>all\<close>. In the third the field
  names differ, the album is submitted with spaces around \<open>Summer 2024\<close> under its field
  name \<open>v||Apple_Photos||album\<close>, and a further field \<open>v||Apple Photos||album\<close> has the
  value \<open>x\<close>; both decode to the album of Apple Photos, and the album comes back as \<open>x\<close>.
\<close>

theorem form_roundtrip_counterexample:
  "submitted (registry_form hash_values) ''Apple Photos'' ''album'' = ''a#b''
   \<and> strip ''a#b'' = ''a#b''
   \<and> file_value (parse_config_with_schema (Text (build_ini_from_form (registry_form hash_values))))
         ''Apple Photos'' ''album'' = Some ''a''
   \<and> submitted (registry_form break_values) ''TimeZone'' ''timezone'' = [CHR ''a'', CHR 0x0A, CHR ''b'']
   \<and> strip [CHR ''a'', CHR 0x0A, CHR ''b''] = [CHR ''a'', CHR 0x0A, CHR ''b'']
   \<and> submitted (registry_form break_values) ''Apple Photos'' ''album'' = ''Summer 2024''
   \<and> strip ''Summer 2024'' = ''Summer 2024''
   \<and> cp_read (build_ini_from_form (registry_form break_values)) = Inl ParsingError
   \<and> file_value (parse_config_with_schema (Text (build_ini_from_form (registry_form break_values))))
         ''TimeZone'' ''timezone'' = Some ''US/Central''
   \<and> file_value (parse_config_with_schema (Text (build_ini_from_form (registry_form break_values))))
         ''Apple Photos'' ''album'' = Some ''all''
   \<and> distinct (map fst alias_form)
   \<and> submitted alias_form ''Apple Photos'' ''album'' = ''  Summer 2024 ''
   \<and> strip ''  Summer 2024 '' = ''Summer 2024''
   \<and> map_of alias_form ''v||Apple Photos||album'' = Some ''x''
   \<and> file_value (parse_config_with_schema (Text (build_ini_from_form alias_form)))
         ''Apple Photos'' ''album'' = Some ''x''"
  unfolding break_value_lost
  by (intro conjI hash_value_cut[THEN conjunct1] hash_value_cut[THEN conjunct2, THEN conjunct1]
      hash_value_cut[THEN conjunct2, THEN conjunct2] break_values_submitted strip_break
      strip_summer_2024 cp_read_break default_values alias_form_facts strip_summer alias_album)

text \<open>
  C3 as amended: for every form payload whose field names differ and hold no space,
  that has a field \<open>v||section||key\<close> for every option of the registry (the section
  encoded), and whose values for these fields hold no \<open>#\<close> and, once trimmed, no line
  break, building the file text and then parsing and merging it gives the registry
  structure with, for every option, the submitted value trimmed of surrounding
  whitespace.
\<close>

theorem form_roundtrip:
  assumes "distinct (map fst form_data)"
    and "\<forall>n \<in> fst ` set form_data. CHR '' '' \<notin> set n"
    and "\<forall>sect \<in> set default_sections_structure. \<forall>x \<in> set (options sect).
           \<exists>v. (form_field_name (section_to_form (name sect)) (key x), v) \<in> set form_data
                \<and> CHR ''#'' \<notin> set v
                \<and> CHR 0x0A \<notin> set (strip v) \<and> CHR 0x0D \<notin> set (strip v)"
  shows "parse_config_with_schema (Text (build_ini_from_form form_data))
           = with_values (\<lambda>nm k. strip (submitted form_data nm k)) default_sections_structure"
proof -
  let ?f = "\<lambda>nm k. strip_inline_comment (strip (submitted form_data nm k))"
  let ?g = "\<lambda>nm k. strip (submitted form_data nm k)"
  have e: "with_values ?f default_sections_structure = with_values ?g default_sections_structure"
    by (rule with_values_cong[where f = ?f and g = ?g and schema = default_sections_structure])
       (rule no_hash_supplied[OF assms(1) assms(3)])
  show ?thesis
    unfolding roundtrip_general[OF assms(1,2) no_breaks_supplied[OF assms(3)]] by (rule e)
qed

theorem form_roundtrip_witness:
  "distinct (map fst (registry_form plain_values))
   \<and> list_all (\<lambda>n. CHR '' '' \<notin> set n) (map fst (registry_form plain_values))
   \<and> list_all (\<lambda>sect. list_all (\<lambda>x. map_of (registry_form plain_values)
          (form_field_name (section_to_form (name sect)) (key x)) = Some (plain_values (name sect) (key x)))
        (options sect)) default_sections_structure
   \<and> parse_config_with_schema (Text (build_ini_from_form (registry_form plain_values)))
       = with_values (\<lambda>nm k. strip (submitted (registry_form plain_values) nm k))
           default_sections_structure
   \<and> submitted (registry_form plain_values) ''Apple Photos'' ''album'' = ''  Summer 2024 ''
   \<and> file_value (parse_config_with_schema (Text (build_ini_from_form (registry_form plain_values))))
         ''Apple Photos'' ''album'' = Some ''Summer 2024''"
proof -
  let ?F = "registry_form plain_values"
  let ?g = "\<lambda>nm k. strip (submitted ?F nm k)"
  have 1: "distinct (map fst ?F)" by (rule registry_names_distinct)
  have 2: "\<forall>n \<in> fst ` set ?F. CHR '' '' \<notin> set n" by (rule registry_names_no_space)
  have 3: "\<forall>sect \<in> set default_sections_structure. \<forall>x \<in> set (options sect).
           \<exists>v. (form_field_name (section_to_form (name sect)) (key x), v) \<in> set ?F
                \<and> CHR ''#'' \<notin> set v
                \<and> CHR 0x0A \<notin> set (strip v) \<and> CHR 0x0D \<notin> set (strip v)"
  proof (intro ballI)
    fix sect x
    assume a: "sect \<in> set default_sections_structure" "x \<in> set (options sect)"
    let ?v = "plain_values (name sect) (key x)"
    note p = plain_values_ok[of "name sect" "key x", THEN conjunct1]
      plain_values_ok[of "name sect" "key x", THEN conjunct2, THEN conjunct1]
      plain_values_ok[of "name sect" "key x", THEN conjunct2, THEN conjunct2]
    show "\<exists>v. (form_field_name (section_to_form (name sect)) (key x), v) \<in> set ?F
                \<and> CHR ''#'' \<notin> set v
                \<and> CHR 0x0A \<notin> set (strip v) \<and> CHR 0x0D \<notin> set (strip v)"
      by (intro exI[of _ ?v] conjI registry_form_member[OF a] p(1) not_in_strip[OF p(2)]
          not_in_strip[OF p(3)])
  qed
  note r = form_roundtrip [OF 1 2 3]
  have sp: "list_all (\<lambda>n. CHR '' '' \<notin> set n) (map fst ?F)"
    unfolding list_all_iff set_map by (rule 2)
  note ap = apple_album[THEN conjunct1] apple_album[THEN conjunct2, THEN conjunct1]
    apple_album[THEN conjunct2, THEN conjunct2, THEN conjunct1]
    apple_album[THEN conjunct2, THEN conjunct2, THEN conjunct2]
  have pv: "plain_values ''Apple Photos'' ''album'' = ''  Summer 2024 ''"
    by (simp add: plain_values_def)
  have s: "submitted ?F ''Apple Photos'' ''album'' = ''  Summer 2024 ''"
    unfolding submitted_at[OF ap, of plain_values] by (rule pv)
  have fv: "file_value (with_values ?g default_sections_structure) ''Apple Photos'' ''album''
      = Some ''Summer 2024''"
    unfolding file_value_at[OF ap, of ?g] s strip_summer by (rule refl)
  have fv': "file_value (parse_config_with_schema (Text (build_ini_from_form ?F)))
         ''Apple Photos'' ''album'' = Some ''Summer 2024''"
    unfolding r by (rule fv)
  show ?thesis
    by (intro conjI 1 sp registry_form_supplied r s fv')
qed

end
